theory Spec2Isabelle
  imports Complex_Main "HOL-Library.Monad_Syntax"
begin

section \<open>Data model of the tracker (deep_sort/tracker.py)\<close>

text \<open>
  A bounding box in the source's \<open>tlwh\<close> layout: top-left x, top-left y, width, height.
  A coordinate is a Python float, taken as the real number it denotes (no NaN and no
  infinity among the coordinates). Floating-point arithmetic is not real arithmetic: the
  operations the tracker performs on floats are parameters, see \<open>env\<close> below.
\<close>

type_synonym tlwh = "real \<times> real \<times> real \<times> real"

text \<open>
  One entry of \<open>Tracker.Covered_lists\<close>: the Python list
  \<open>[t.track_id, t.to_tlwh(), t.cover_frame]\<close>, read by position
  (\<open>cover[0]\<close>, \<open>cover[1]\<close>, \<open>track[2]\<close>).
\<close>

type_synonym cover = "int \<times> tlwh \<times> int"

definition cover_id :: "cover \<Rightarrow> int" where
  "cover_id c = fst c"

definition cover_box :: "cover \<Rightarrow> tlwh" where
  "cover_box c = fst (snd c)"

definition cover_frames :: "cover \<Rightarrow> int" where
  "cover_frames c = snd (snd c)"

datatype track_state = Tentative | Confirmed | Deleted

text \<open>
  Modelled from the spec: the numeric value of a lifecycle state (deep_sort/track.py is not
  part of the sources). \<open>Tracker.update\<close> compares \<open>state == 3\<close>; the spec lists the
  states in the order Tentative, Confirmed, Deleted, so Deleted is the third.
\<close>

fun state_code :: "track_state \<Rightarrow> int" where
  "state_code Tentative = 1"
| "state_code Confirmed = 2"
| "state_code Deleted = 3"

text \<open>A detection: \<open>{tlwh, confidence, feature}\<close>; the feature vector stays abstract.\<close>

record 'f detection =
  tlwh :: tlwh
  confidence :: real
  feature :: 'f

text \<open>
  A track, with the attributes \<open>tracker.py\<close> reads and writes. \<open>mean\<close> stands for the
  motion filter's pair (mean, covariance), kept abstract; \<open>n_init_t\<close> and \<open>max_age_t\<close> are
  the constructor's \<open>n_init\<close> and \<open>max_age\<close> arguments.
\<close>

record ('m, 'f) track =
  mean :: 'm
  track_id :: int
  hits :: int
  age :: int
  time_since_update :: int
  state :: track_state
  features :: "'f list"
  Covered :: bool
  cover_frame :: int
  n_init_t :: int
  max_age_t :: int

text \<open>
  The tracker object: \<open>metric\<close> is the appearance metric's state (abstract),
  \<open>next_id\<close> is \<open>self._next_id\<close>.
\<close>

record ('m, 'f, 'g) tracker =
  metric :: 'g
  max_iou_distance :: real
  max_age :: int
  n_init :: int
  tracks :: "('m, 'f) track list"
  next_id :: int
  Covered_lists :: "cover list"

text \<open>
  The collaborators of \<open>tracker.py\<close> whose code is outside the sources, taken as
  parameters: the motion filter (\<open>kalman_filter\<close>), the box of a track
  (\<open>Track.to_tlwh\<close>), the geometric trigger inside \<open>Track.is_Covered\<close>, the two
  assignment routines of \<open>linear_assignment\<close> (the cascade is called with the gated
  appearance metric, so it depends on the metric state; the second one is called with
  \<open>iou_matching.iou_cost\<close>) and the metric's \<open>partial_fit\<close>. An assignment returns
  (matches, unmatched tracks, unmatched detections), all as indices.

  The float64 operations of \<open>new_id_track\<close> are parameters too: \<open>fl_sub a b\<close> is the
  float \<open>a - b\<close>, \<open>fl_pow2 a\<close> the float \<open>a ** 2\<close>, \<open>fl_add a b\<close> the float \<open>a + b\<close>
  and \<open>fl_sqrt a\<close> the float \<open>sqrt(a)\<close>, each with the rounding of the machine.
  Comparisons of floats are exact.
\<close>

type_synonym assignment = "(nat \<times> nat) list \<times> nat list \<times> nat list"

record ('m, 'f, 'g) env =
  kf_initiate :: "tlwh \<Rightarrow> 'm"
  kf_predict :: "'m \<Rightarrow> 'm"
  kf_update :: "'m \<Rightarrow> tlwh \<Rightarrow> 'm"
  mean_to_tlwh :: "'m \<Rightarrow> tlwh"
  covered_by :: "tlwh list \<Rightarrow> real \<Rightarrow> ('m, 'f) track \<Rightarrow> bool"
  matching_cascade ::
    "'g \<Rightarrow> int \<Rightarrow> ('m, 'f) track list \<Rightarrow> 'f detection list \<Rightarrow> nat list \<Rightarrow> assignment"
  min_cost_matching ::
    "real \<Rightarrow> ('m, 'f) track list \<Rightarrow> 'f detection list \<Rightarrow> nat list \<Rightarrow> nat list
       \<Rightarrow> assignment"
  partial_fit :: "'g \<Rightarrow> 'f list \<Rightarrow> int list \<Rightarrow> int list \<Rightarrow> 'g"
  fl_sub :: "real \<Rightarrow> real \<Rightarrow> real"
  fl_pow2 :: "real \<Rightarrow> real"
  fl_add :: "real \<Rightarrow> real \<Rightarrow> real"
  fl_sqrt :: "real \<Rightarrow> real"

text \<open>\<open>list.pop(i)\<close> for an index inside the list.\<close>

definition pop :: "nat \<Rightarrow> 'a list \<Rightarrow> 'a list" where
  "pop i xs = take i xs @ drop (Suc i) xs"

section \<open>The Track methods used by the tracker\<close>

text \<open>
  Modelled from the spec: the constructor \<open>Track(mean, covariance, track_id, n_init,
  max_age, feature)\<close> (deep_sort/track.py is not part of the sources). A new track is
  Tentative, not covered, holds the feature of the detection that created it, and its
  counters start at 0.
\<close>

definition Track :: "'m \<Rightarrow> int \<Rightarrow> int \<Rightarrow> int \<Rightarrow> 'f \<Rightarrow> ('m, 'f) track" where
  "Track m tid ninit maxage feat =
     \<lparr>mean = m, track_id = tid, hits = 0, age = 0, time_since_update = 0,
      state = Tentative, features = [feat], Covered = False, cover_frame = 0,
      n_init_t = ninit, max_age_t = maxage\<rparr>"

definition is_confirmed :: "('m, 'f) track \<Rightarrow> bool" where
  "is_confirmed t = (state t = Confirmed)"

definition is_deleted :: "('m, 'f) track \<Rightarrow> bool" where
  "is_deleted t = (state t = Deleted)"

definition to_tlwh :: "('m, 'f, 'g) env \<Rightarrow> ('m, 'f) track \<Rightarrow> tlwh" where
  "to_tlwh E t = mean_to_tlwh E (mean t)"

text \<open>
  Modelled from the spec: \<open>Track.predict\<close> advances the motion filter one step and
  increments \<open>age\<close> and \<open>time_since_update\<close>.
\<close>

definition Track_predict :: "('m, 'f, 'g) env \<Rightarrow> ('m, 'f) track \<Rightarrow> ('m, 'f) track" where
  "Track_predict E t =
     t\<lparr>mean := kf_predict E (mean t), age := age t + 1,
       time_since_update := time_since_update t + 1\<rparr>"

text \<open>
  Modelled from the spec: \<open>Track.update\<close> on a match: motion-filter correction, feature
  appended, \<open>hits += 1\<close>, \<open>time_since_update = 0\<close>, and a Tentative track becomes
  Confirmed after \<open>n_init\<close> matched updates.
\<close>

definition Track_update ::
  "('m, 'f, 'g) env \<Rightarrow> ('m, 'f) track \<Rightarrow> 'f detection \<Rightarrow> ('m, 'f) track" where
  "Track_update E t d =
     (let t' = t\<lparr>mean := kf_update E (mean t) (tlwh d),
                   features := features t @ [feature d],
                   hits := hits t + 1, time_since_update := 0\<rparr>
      in if state t' = Tentative \<and> hits t' \<ge> n_init_t t'
         then t'\<lparr>state := Confirmed\<rparr> else t')"

text \<open>
  Modelled from the spec: \<open>Track.mark_missed\<close>: any miss deletes a Tentative track; a
  Confirmed track is deleted once \<open>time_since_update > max_age\<close>.
\<close>

definition mark_missed :: "('m, 'f) track \<Rightarrow> ('m, 'f) track" where
  "mark_missed t =
     (if state t = Tentative then t\<lparr>state := Deleted\<rparr>
      else if time_since_update t > max_age_t t then t\<lparr>state := Deleted\<rparr>
      else t)"

text \<open>
  Modelled from the spec: \<open>Track.is_Covered(boxes, threshold)\<close> evaluates the occlusion
  test against the given boxes and, if it triggers, marks the track covered. The test
  itself is the parameter \<open>covered_by\<close>.
\<close>

definition is_Covered ::
  "('m, 'f, 'g) env \<Rightarrow> tlwh list \<Rightarrow> real \<Rightarrow> ('m, 'f) track \<Rightarrow> ('m, 'f) track" where
  "is_Covered E boxes thr t = (if covered_by E boxes thr t then t\<lparr>Covered := True\<rparr> else t)"

section \<open>Tracker.predict: ageing the covered ledger\<close>

text \<open>\<open>track[2] += 1\<close> on one ledger entry.\<close>

definition age_cover :: "cover \<Rightarrow> cover" where
  "age_cover c = (cover_id c, cover_box c, cover_frames c + 1)"

text \<open>
  The loop \<open>for i, track in enumerate(self.Covered_lists)\<close> of \<open>predict\<close>. Python's list
  iterator keeps a position and reads the list afresh at every step, so an entry popped at
  position \<open>i\<close> leaves the loop to continue at position \<open>i + 1\<close> of the shortened list.
\<close>

function predict_covered :: "nat \<Rightarrow> cover list \<Rightarrow> cover list" where
  "predict_covered i cl =
     (if i < length cl then
        (let track = age_cover (cl ! i); cl' = cl[i := track]
         in if cover_frames track \<ge> 140
            then predict_covered (Suc i) (pop i cl')
            else predict_covered (Suc i) cl')
      else cl)"
  by pat_completeness auto
termination
  by (relation "measure (\<lambda>(i, cl). length cl - i)") (auto simp: pop_def)

declare predict_covered.simps [simp del]

text \<open>
  The same loop by recursion on the part of the ledger not yet visited, used in the proofs
  (lemma \<open>predict_covered_age_skip\<close>): after a removal the next entry is passed over.
\<close>

fun age_skip :: "cover list \<Rightarrow> cover list" where
  "age_skip [] = []"
| "age_skip [x] = (if cover_frames x + 1 \<ge> 140 then [] else [age_cover x])"
| "age_skip (x # y # ys) =
     (if cover_frames x + 1 \<ge> 140 then y # age_skip ys
      else age_cover x # age_skip (y # ys))"

definition predict :: "('m, 'f, 'g) env \<Rightarrow> ('m, 'f, 'g) tracker \<Rightarrow> ('m, 'f, 'g) tracker" where
  "predict E T =
     T\<lparr>tracks := map (Track_predict E) (tracks T),
       Covered_lists := predict_covered 0 (Covered_lists T)\<rparr>"

section \<open>Tracker.new_id_track and Tracker._initiate_track\<close>

text \<open>
  The loop of \<open>new_id_track\<close> over \<open>enumerate(self.Covered_lists)\<close>: it returns at the
  first entry whose distance \<open>D\<close> to the detection lies in the window, with the position
  and the id of that entry. \<open>D\<close> is computed from the first two components of the two
  boxes, as the source does, in the float arithmetic of the environment:
  \<open>D = sqrt((x2 - x1) ** 2 + (y2 - y1) ** 2)\<close>.
\<close>

fun new_id_scan ::
  "('m, 'f, 'g) env \<Rightarrow> tlwh \<Rightarrow> cover list \<Rightarrow> nat \<Rightarrow> (nat \<times> int) option" where
  "new_id_scan E detection [] i = None"
| "new_id_scan E detection (cover # rest) i =
     (let (x1, y1, w1, h1) = detection;
          (x2, y2, w2, h2) = cover_box cover;
          D = fl_sqrt E (fl_add E (fl_pow2 E (fl_sub E x2 x1)) (fl_pow2 E (fl_sub E y2 y1)))
      in if 1 < D \<and> D \<le> 60 then Some (i, cover_id cover)
         else new_id_scan E detection rest (Suc i))"

text \<open>Returns \<open>(is_OLD, OLD_ID)\<close> and the tracker, whose ledger lost the reused entry.\<close>

definition new_id_track ::
  "('m, 'f, 'g) env \<Rightarrow> ('m, 'f, 'g) tracker \<Rightarrow> tlwh
     \<Rightarrow> (bool \<times> int) \<times> ('m, 'f, 'g) tracker" where
  "new_id_track E T detection =
     (if Covered_lists T \<noteq> [] then
        (case new_id_scan E detection (Covered_lists T) 0 of
           Some (i, old_id) \<Rightarrow> ((True, old_id), T\<lparr>Covered_lists := pop i (Covered_lists T)\<rparr>)
         | None \<Rightarrow> ((False, - 1), T))
      else ((False, - 1), T))"

definition initiate_track ::
  "('m, 'f, 'g) env \<Rightarrow> ('m, 'f, 'g) tracker \<Rightarrow> 'f detection \<Rightarrow> ('m, 'f, 'g) tracker" where
  "initiate_track E T detection =
     (let m = kf_initiate E (tlwh detection);
          ((is_OLD, OLD_ID), T') = new_id_track E T (tlwh detection)
      in if is_OLD then
           T'\<lparr>tracks := tracks T' @ [Track m OLD_ID (n_init T') (max_age T') (feature detection)]\<rparr>
         else
           T'\<lparr>tracks := tracks T' @
                    [Track m (next_id T') (n_init T') (max_age T') (feature detection)],
              next_id := next_id T' + 1\<rparr>)"

section \<open>Tracker._match\<close>

text \<open>
  Indices are natural numbers: the assignment routines return positions of the lists they
  are given, so Python's negative indices do not occur. Reading \<open>self.tracks[k]\<close> or
  \<open>detections[k]\<close> outside the list raises IndexError in the source, which is the result
  \<open>None\<close> here. \<open>list(set(...))\<close> yields the distinct indices in an order the language
  leaves open; the model takes them in ascending order (lemma \<open>apply_misses_order\<close> below
  shows that the loop consuming them does not depend on the order).
\<close>

definition match ::
  "('m, 'f, 'g) env \<Rightarrow> ('m, 'f, 'g) tracker \<Rightarrow> 'f detection list \<Rightarrow> assignment option" where
  "match E T detections =
     (let confirmed_tracks = [i \<leftarrow> [0 ..< length (tracks T)]. is_confirmed (tracks T ! i)];
          unconfirmed_tracks = [i \<leftarrow> [0 ..< length (tracks T)]. \<not> is_confirmed (tracks T ! i)];
          (matches_a, unmatched_tracks_a, unmatched_detections) =
             matching_cascade E (metric T) (max_age T) (tracks T) detections confirmed_tracks
      in if list_all (\<lambda>k. k < length (tracks T)) unmatched_tracks_a then
           (let iou_track_candidates = unconfirmed_tracks @
                  [k \<leftarrow> unmatched_tracks_a. time_since_update (tracks T ! k) = 1];
                unmatched_tracks_a' =
                  [k \<leftarrow> unmatched_tracks_a. time_since_update (tracks T ! k) \<noteq> 1];
                (matches_b, unmatched_tracks_b, unmatched_detections') =
                   min_cost_matching E (max_iou_distance T) (tracks T) detections
                     iou_track_candidates unmatched_detections
            in Some (matches_a @ matches_b,
                     sort (remdups (unmatched_tracks_a' @ unmatched_tracks_b)),
                     unmatched_detections'))
         else None)"

section \<open>Tracker.update\<close>

text \<open>Lines 82-83: the loop over the matches.\<close>

fun apply_matches ::
  "('m, 'f, 'g) env \<Rightarrow> 'f detection list \<Rightarrow> (nat \<times> nat) list \<Rightarrow> ('m, 'f, 'g) tracker
     \<Rightarrow> ('m, 'f, 'g) tracker option" where
  "apply_matches E detections [] T = Some T"
| "apply_matches E detections ((track_idx, detection_idx) # rest) T =
     (if track_idx < length (tracks T) \<and> detection_idx < length detections then
        apply_matches E detections rest
          (T\<lparr>tracks := (tracks T)[track_idx :=
                 Track_update E (tracks T ! track_idx) (detections ! detection_idx)]\<rparr>)
      else None)"

text \<open>Lines 84-89: the loop over the unmatched tracks.\<close>

fun apply_misses ::
  "('m, 'f, 'g) env \<Rightarrow> tlwh list \<Rightarrow> nat list \<Rightarrow> ('m, 'f, 'g) tracker
     \<Rightarrow> ('m, 'f, 'g) tracker option" where
  "apply_misses E track_covered [] T = Some T"
| "apply_misses E track_covered (track_idx # rest) T =
     (if track_idx < length (tracks T) then
        (let t = mark_missed (is_Covered E track_covered 0.75 (tracks T ! track_idx));
             T' = T\<lparr>tracks := (tracks T)[track_idx := t]\<rparr>
         in apply_misses E track_covered rest
              (if state_code (state t) = 3 \<and> time_since_update t = 1
               then T'\<lparr>next_id := next_id T' - 1\<rparr> else T'))
      else None)"

text \<open>Lines 91-92: the loop over the unmatched detections.\<close>

fun initiate_all ::
  "('m, 'f, 'g) env \<Rightarrow> 'f detection list \<Rightarrow> nat list \<Rightarrow> ('m, 'f, 'g) tracker
     \<Rightarrow> ('m, 'f, 'g) tracker option" where
  "initiate_all E detections [] T = Some T"
| "initiate_all E detections (detection_idx # rest) T =
     (if detection_idx < length detections then
        initiate_all E detections rest (initiate_track E T (detections ! detection_idx))
      else None)"

text \<open>Lines 77-92: matching, then the three loops, on the track list of the frame.\<close>

definition update_tracks ::
  "('m, 'f, 'g) env \<Rightarrow> ('m, 'f, 'g) tracker \<Rightarrow> 'f detection list
     \<Rightarrow> ('m, 'f, 'g) tracker option" where
  "update_tracks E T detections =
     do {
       (matches, unmatched_tracks, unmatched_detections) \<leftarrow> match E T detections;
       let track_covered = map (to_tlwh E) (tracks T);
       T1 \<leftarrow> apply_matches E detections matches T;
       T2 \<leftarrow> apply_misses E track_covered unmatched_tracks T1;
       initiate_all E detections unmatched_detections T2
     }"

text \<open>Lines 94-97: covered tracks go to the ledger; covered and deleted tracks leave.\<close>

definition cover_entry :: "('m, 'f, 'g) env \<Rightarrow> ('m, 'f) track \<Rightarrow> cover" where
  "cover_entry E t = (track_id t, to_tlwh E t, cover_frame t)"

definition sweep :: "('m, 'f, 'g) env \<Rightarrow> ('m, 'f, 'g) tracker \<Rightarrow> ('m, 'f, 'g) tracker" where
  "sweep E T =
     (let T' = T\<lparr>Covered_lists :=
                   Covered_lists T @ [cover_entry E t. t \<leftarrow> tracks T, Covered t]\<rparr>
      in T'\<lparr>tracks := [t \<leftarrow> tracks T'. \<not> is_deleted t \<and> \<not> Covered t]\<rparr>)"

text \<open>
  Lines 102-108: the loop that gathers \<open>features\<close> (here \<open>feats\<close>) and \<open>targets\<close> and empties the
  accumulator of each confirmed track; it returns the tracks as the loop leaves them.
\<close>

fun refit_loop ::
  "('m, 'f) track list \<Rightarrow> 'f list \<Rightarrow> int list \<Rightarrow> ('m, 'f) track list \<times> 'f list \<times> int list" where
  "refit_loop [] feats targets = ([], feats, targets)"
| "refit_loop (t # rest) feats targets =
     (if \<not> is_confirmed t then
        (let (rest', fs, tg) = refit_loop rest feats targets in (t # rest', fs, tg))
      else
        (let (rest', fs, tg) =
               refit_loop rest (feats @ features t)
                 (targets @ map (\<lambda>_. track_id t) (features t))
         in (t\<lparr>features := []\<rparr> # rest', fs, tg)))"

text \<open>
  Lines 100-110: the arguments handed to \<open>metric.partial_fit\<close>, in its order
  (features, targets, active_targets).
\<close>

definition refit_args ::
  "('m, 'f, 'g) tracker \<Rightarrow> 'f list \<times> int list \<times> int list" where
  "refit_args T =
     (let active_targets = [track_id t. t \<leftarrow> tracks T, is_confirmed t];
          (ts, feats, targets) = refit_loop (tracks T) [] []
      in (feats, targets, active_targets))"

definition refit :: "('m, 'f, 'g) env \<Rightarrow> ('m, 'f, 'g) tracker \<Rightarrow> ('m, 'f, 'g) tracker" where
  "refit E T =
     (let (feats, targets, active_targets) = refit_args T;
          (ts, fs, tg) = refit_loop (tracks T) [] []
      in T\<lparr>tracks := ts,
           metric := partial_fit E (metric T) feats targets active_targets\<rparr>)"

definition update ::
  "('m, 'f, 'g) env \<Rightarrow> ('m, 'f, 'g) tracker \<Rightarrow> 'f detection list
     \<Rightarrow> ('m, 'f, 'g) tracker option" where
  "update E T detections = map_option (\<lambda>T'. refit E (sweep E T')) (update_tracks E T detections)"

text \<open>\<open>Tracker.__init__\<close>.\<close>

definition Tracker :: "'g \<Rightarrow> real \<Rightarrow> int \<Rightarrow> int \<Rightarrow> ('m, 'f, 'g) tracker" where
  "Tracker m max_iou maxage ninit =
     \<lparr>metric = m, max_iou_distance = max_iou, max_age = maxage, n_init = ninit,
      tracks = [], next_id = 1, Covered_lists = []\<rparr>"

section \<open>A concrete environment for the examples\<close>

text \<open>
  The motion state is the box itself and never moves, features are numbers, the metric has
  no state, no track is ever judged covered, and the assignment routines match a track and
  a detection exactly when their boxes coincide (first detection first) and leave
  everything else unmatched. The float operations are the exact ones: the examples use
  boxes on which every difference, square and sum is a small integer and every root taken
  is an integer, so that float64 computes these very values.
\<close>

fun match_equal ::
  "(tlwh, nat) track list \<Rightarrow> nat detection list \<Rightarrow> nat list \<Rightarrow> nat list \<Rightarrow> assignment" where
  "match_equal ts ds [] dis = ([], [], dis)"
| "match_equal ts ds (k # ks) dis =
     (case [d \<leftarrow> dis. tlwh (ds ! d) = mean (ts ! k)] of
        [] \<Rightarrow> (let (m, ut, ud) = match_equal ts ds ks dis in (m, k # ut, ud))
      | d # _ \<Rightarrow> (let (m, ut, ud) = match_equal ts ds ks (removeAll d dis) in ((k, d) # m, ut, ud)))"

definition example_env :: "(tlwh, nat, unit) env" where
  "example_env =
     \<lparr>kf_initiate = (\<lambda>b. b), kf_predict = (\<lambda>m. m), kf_update = (\<lambda>m b. b),
      mean_to_tlwh = (\<lambda>m. m), covered_by = (\<lambda>boxes thr t. False),
      matching_cascade = (\<lambda>g a ts ds tis. match_equal ts ds tis [0 ..< length ds]),
      min_cost_matching = (\<lambda>thr ts ds tis dis. match_equal ts ds tis dis),
      partial_fit = (\<lambda>g fs tg act. g),
      fl_sub = (\<lambda>a b. a - b), fl_pow2 = (\<lambda>a. a\<^sup>2), fl_add = (\<lambda>a b. a + b),
      fl_sqrt = sqrt\<rparr>"

section \<open>Notions used in the statements\<close>

text \<open>
  The quantity \<open>D\<close> of \<open>new_id_track\<close>, as the program computes it: the float distance
  between the top-left corners of the detection's box \<open>a\<close> and of the ledger entry's box
  \<open>b\<close>.
\<close>

definition corner_distance :: "('m, 'f, 'g) env \<Rightarrow> tlwh \<Rightarrow> tlwh \<Rightarrow> real" where
  "corner_distance E a b =
     fl_sqrt E (fl_add E (fl_pow2 E (fl_sub E (fst b) (fst a)))
                         (fl_pow2 E (fl_sub E (fst (snd b)) (fst (snd a)))))"

text \<open>The reuse window of \<open>new_id_track\<close>: \<open>1 < D <= 60\<close> for the computed \<open>D\<close>.\<close>

definition in_window :: "('m, 'f, 'g) env \<Rightarrow> tlwh \<Rightarrow> cover \<Rightarrow> bool" where
  "in_window E detection c \<longleftrightarrow>
     1 < corner_distance E detection (cover_box c)
     \<and> corner_distance E detection (cover_box c) \<le> 60"

text \<open>A tracker with two ledger entries, for the examples.\<close>

definition ledger_tracker :: "(tlwh, nat, unit) tracker" where
  "ledger_tracker = (Tracker () 0.9 40 11)
     \<lparr>next_id := 8, Covered_lists := [(5, (300, 400, 10, 10), 3), (7, (3, 4, 10, 10), 0)]\<rparr>"

text \<open>
  What the loop over the unmatched tracks does to one track: the cover test, then the miss.
\<close>

definition miss :: "('m, 'f, 'g) env \<Rightarrow> tlwh list \<Rightarrow> ('m, 'f) track \<Rightarrow> ('m, 'f) track" where
  "miss E track_covered t = mark_missed (is_Covered E track_covered 0.75 t)"

text \<open>The condition of line 87, read after the miss.\<close>

definition first_miss_deleted :: "('m, 'f) track \<Rightarrow> bool" where
  "first_miss_deleted t \<longleftrightarrow> state t = Deleted \<and> time_since_update t = 1"

section \<open>A two-frame scenario\<close>

text \<open>
  Frame 1 shows two objects; in frame 2 the first one is gone, the second one is detected
  at its place and a third object appears far away. The boxes of a matched pair coincide
  and all other pairs are disjoint, so the assignment of \<open>example_env\<close> is the one a
  minimum-cost IOU assignment returns.
\<close>

definition frame1_detections :: "nat detection list" where
  "frame1_detections =
     [\<lparr>tlwh = (0, 0, 10, 10), confidence = 1, feature = 0\<rparr>,
      \<lparr>tlwh = (100, 0, 10, 10), confidence = 1, feature = 1\<rparr>]"

text \<open>The detections of frame 2.\<close>

definition frame2_detections :: "nat detection list" where
  "frame2_detections =
     [\<lparr>tlwh = (100, 0, 10, 10), confidence = 1, feature = 1\<rparr>,
      \<lparr>tlwh = (300, 300, 10, 10), confidence = 1, feature = 2\<rparr>]"

text \<open>The tracker after \<open>update\<close> on frame 1 and the \<open>predict\<close> of frame 2.\<close>

definition frame2_tracker :: "(tlwh, nat, unit) tracker" where
  "frame2_tracker =
     (Tracker () 0.9 40 11)
       \<lparr>tracks := [(Track (0, 0, 10, 10) 1 11 40 0)\<lparr>age := 1, time_since_update := 1\<rparr>,
                   (Track (100, 0, 10, 10) 2 11 40 1)\<lparr>age := 1, time_since_update := 1\<rparr>],
        next_id := 3\<rparr>"

text \<open>The tracker after the three loops of \<open>update\<close> on frame 2.\<close>

definition frame2_working :: "(tlwh, nat, unit) tracker" where
  "frame2_working =
     (Tracker () 0.9 40 11)
       \<lparr>tracks := [(Track (0, 0, 10, 10) 1 11 40 0)
                      \<lparr>age := 1, time_since_update := 1, state := Deleted\<rparr>,
                   (Track (100, 0, 10, 10) 2 11 40 1)
                      \<lparr>hits := 1, age := 1, features := [1, 1]\<rparr>,
                   Track (300, 300, 10, 10) 2 11 40 2],
        next_id := 3\<rparr>"

text \<open>The tracker after \<open>update\<close> on frame 2.\<close>

definition frame2_result :: "(tlwh, nat, unit) tracker" where
  "frame2_result =
     (Tracker () 0.9 40 11)
       \<lparr>tracks := [(Track (100, 0, 10, 10) 2 11 40 1)
                      \<lparr>hits := 1, age := 1, features := [1, 1]\<rparr>,
                   Track (300, 300, 10, 10) 2 11 40 2],
        next_id := 3\<rparr>"

text \<open>What the refit loop does to one track: a confirmed track loses its features.\<close>

definition clear_features :: "('m, 'f) track \<Rightarrow> ('m, 'f) track" where
  "clear_features t = (if is_confirmed t then t\<lparr>features := []\<rparr> else t)"

text \<open>A tracker with a confirmed and a tentative track, for the examples.\<close>

definition confirmed_tracker :: "(tlwh, nat, unit) tracker" where
  "confirmed_tracker =
     (Tracker () 0.9 40 11)
       \<lparr>tracks := [(Track (0, 0, 10, 10) 3 11 40 5)
                      \<lparr>hits := 11, age := 11, state := Confirmed, features := [5, 6]\<rparr>,
                   Track (100, 0, 10, 10) 4 11 40 7],
        next_id := 5\<rparr>"

text \<open>The example environment, except that a confirmed track is judged covered.\<close>

definition cover_env :: "(tlwh, nat, unit) env" where
  "cover_env = example_env\<lparr>covered_by := (\<lambda>boxes thr t. is_confirmed t)\<rparr>"

text \<open>The tracker after \<open>update\<close> of \<open>confirmed_tracker\<close> with no detection.\<close>

definition covered_result :: "(tlwh, nat, unit) tracker" where
  "covered_result =
     (Tracker () 0.9 40 11)\<lparr>next_id := 5, Covered_lists := [(3, (0, 0, 10, 10), 0)]\<rparr>"

text \<open>
  A tracker with two confirmed tracks, missed for one and for three frames, and a tentative
  track.
\<close>

definition match_tracker :: "(tlwh, nat, unit) tracker" where
  "match_tracker =
     (Tracker () 0.9 40 11)
       \<lparr>tracks := [(Track (0, 0, 10, 10) 1 11 40 5)
                      \<lparr>hits := 11, age := 12, time_since_update := 1, state := Confirmed\<rparr>,
                   (Track (50, 0, 10, 10) 2 11 40 6)
                      \<lparr>hits := 11, age := 14, time_since_update := 3, state := Confirmed\<rparr>,
                   (Track (100, 0, 10, 10) 3 11 40 7)\<lparr>age := 1, time_since_update := 1\<rparr>],
        next_id := 4\<rparr>"

text \<open>
  Modelled from the spec: what an assignment routine of \<open>linear_assignment\<close> (not part of
  the sources) returns on an empty candidate set: "an empty candidate set yields zero
  matches, all detections unmatched, all tracks unmatched". The cascade starts from all
  detections; the second routine from the detections it is given.
\<close>

definition empty_assignment_ok :: "('m, 'f, 'g) env \<Rightarrow> bool" where
  "empty_assignment_ok E \<longleftrightarrow>
     (\<forall>g a ts ds tis. ds = [] \<or> tis = [] \<longrightarrow>
        (case matching_cascade E g a ts ds tis of
           (m, ut, ud) \<Rightarrow> m = [] \<and> set ut = set tis \<and> distinct ud \<and> set ud = {..< length ds}))
     \<and> (\<forall>thr ts ds tis dis. dis = [] \<or> tis = [] \<longrightarrow>
        (case min_cost_matching E thr ts ds tis dis of
           (m, ut, ud) \<Rightarrow> m = [] \<and> set ut = set tis \<and> set ud = set dis
                           \<and> (distinct dis \<longrightarrow> distinct ud)))"

section \<open>Ids in use\<close>

text \<open>The ids of the active tracks followed by the ids of the ledger entries.\<close>

definition ids :: "('m, 'f, 'g) tracker \<Rightarrow> int list" where
  "ids T = map track_id (tracks T) @ map cover_id (Covered_lists T)"

text \<open>
  An \<open>update\<close> in which the id counter is not decremented: no unmatched track is, after
  its miss, Deleted with \<open>time_since_update = 1\<close>. It returns what \<open>update\<close> returns.
\<close>

definition quiet_update ::
  "('m, 'f, 'g) env \<Rightarrow> ('m, 'f, 'g) tracker \<Rightarrow> 'f detection list
     \<Rightarrow> ('m, 'f, 'g) tracker option" where
  "quiet_update E T detections =
     (case match E T detections of
        None \<Rightarrow> None
      | Some (ms, uts, uds) \<Rightarrow>
          (case update_tracks E T detections of
             None \<Rightarrow> None
           | Some W \<Rightarrow>
               if list_all (\<lambda>k. \<not> first_miss_deleted (tracks W ! k)) uts
               then Some (refit E (sweep E W)) else None))"

text \<open>
  The tracker states reached from a new tracker by \<open>predict\<close> and by updates that do not
  decrement the id counter.
\<close>

inductive quiet_reachable :: "('m, 'f, 'g) env \<Rightarrow> ('m, 'f, 'g) tracker \<Rightarrow> bool"
  for E :: "('m, 'f, 'g) env" where
  init: "quiet_reachable E (Tracker m max_iou maxage ninit)"
| predict: "quiet_reachable E T \<Longrightarrow> quiet_reachable E (predict E T)"
| update: "quiet_reachable E T \<Longrightarrow> quiet_update E T detections = Some T'
             \<Longrightarrow> quiet_reachable E T'"

text \<open>The invariant: ids are distinct, positive and below the id counter.\<close>

definition id_inv :: "('m, 'f, 'g) tracker \<Rightarrow> bool" where
  "id_inv T \<longleftrightarrow>
     distinct (ids T) \<and> list_all (\<lambda>i. 1 \<le> i \<and> i < next_id T) (ids T) \<and> 1 \<le> next_id T"

text \<open>The tracker after \<open>update\<close> on frame 1 of the scenario.\<close>

definition frame1_result :: "(tlwh, nat, unit) tracker" where
  "frame1_result =
     (Tracker () 0.9 40 11)
       \<lparr>tracks := [Track (0, 0, 10, 10) 1 11 40 0, Track (100, 0, 10, 10) 2 11 40 1],
        next_id := 3\<rparr>"

text \<open>
  Modelled from the spec: the result of an assignment routine of \<open>linear_assignment\<close>
  (not part of the sources) is "matches, still-unmatched tracks, still-unmatched
  detections": positions of the track and detection lists, when the candidates it is given
  are such positions.
\<close>

definition assignment_in_range :: "('m, 'f, 'g) env \<Rightarrow> bool" where
  "assignment_in_range E \<longleftrightarrow>
     (\<forall>g a ts ds tis. list_all (\<lambda>k. k < length ts) tis \<longrightarrow>
        (case matching_cascade E g a ts ds tis of
           (m, ut, ud) \<Rightarrow> list_all (\<lambda>(t, d). t < length ts \<and> d < length ds) m
                           \<and> list_all (\<lambda>k. k < length ts) ut
                           \<and> list_all (\<lambda>d. d < length ds) ud))
     \<and> (\<forall>thr ts ds tis dis.
        list_all (\<lambda>k. k < length ts) tis \<and> list_all (\<lambda>d. d < length ds) dis \<longrightarrow>
        (case min_cost_matching E thr ts ds tis dis of
           (m, ut, ud) \<Rightarrow> list_all (\<lambda>(t, d). t < length ts \<and> d < length ds) m
                           \<and> list_all (\<lambda>k. k < length ts) ut
                           \<and> list_all (\<lambda>d. d < length ds) ud))"

section \<open>Properties of predict\<close>


lemma cover_frames_age [simp]: "cover_frames (age_cover c) = cover_frames c + 1"
  by (simp add: age_cover_def cover_frames_def)

lemma predict_covered_done: "length cl \<le> i \<Longrightarrow> predict_covered i cl = cl"
  by (subst predict_covered.simps) simp

lemma predict_covered_keep:
  "i < length cl \<Longrightarrow> cover_frames (cl ! i) + 1 < 140 \<Longrightarrow>
   predict_covered i cl = predict_covered (Suc i) (cl[i := age_cover (cl ! i)])"
  by (subst predict_covered.simps) (simp add: Let_def)

lemma predict_covered_drop:
  "i < length cl \<Longrightarrow> 140 \<le> cover_frames (cl ! i) + 1 \<Longrightarrow>
   predict_covered i cl = predict_covered (Suc i) (pop i cl)"
  by (subst predict_covered.simps) (simp add: Let_def pop_def)

lemma predict_covered_age_skip:
  "predict_covered (length pre) (pre @ xs) = pre @ age_skip xs"
proof (induction xs arbitrary: pre rule: age_skip.induct)
  case 1
  then show ?case by (simp add: predict_covered_done)
next
  case (2 x)
  show ?case
  proof (cases "140 \<le> cover_frames x + 1")
    case True
    then show ?thesis
      by (simp add: predict_covered_drop pop_def predict_covered_done)
  next
    case False
    then show ?thesis
      by (simp add: predict_covered_keep predict_covered_done)
  qed
next
  case (3 x y ys)
  show ?case
  proof (cases "140 \<le> cover_frames x + 1")
    case True
    have "predict_covered (length pre) (pre @ x # y # ys) =
          predict_covered (Suc (length pre)) (pre @ y # ys)"
      using True by (simp add: predict_covered_drop pop_def)
    also have "\<dots> = predict_covered (length (pre @ [y])) ((pre @ [y]) @ ys)" by simp
    also have "\<dots> = (pre @ [y]) @ age_skip ys" using 3(1)[OF True] by blast
    finally show ?thesis using True by simp
  next
    case False
    have "predict_covered (length pre) (pre @ x # y # ys) =
          predict_covered (Suc (length pre)) (pre @ age_cover x # y # ys)"
      using False by (simp add: predict_covered_keep)
    also have "\<dots> = predict_covered (length (pre @ [age_cover x])) ((pre @ [age_cover x]) @ y # ys)"
      by simp
    also have "\<dots> = (pre @ [age_cover x]) @ age_skip (y # ys)" using 3(2)[OF False] by blast
    finally show ?thesis using False by simp
  qed
qed

lemma predict_covered_0: "predict_covered 0 cl = age_skip cl"
  using predict_covered_age_skip [of "[]" cl] by simp

lemma Covered_lists_predict: "Covered_lists (predict E T) = age_skip (Covered_lists T)"
  by (simp add: predict_def predict_covered_0)

lemma age_skip_subset:
  "c' \<in> set (age_skip xs) \<Longrightarrow>
   c' \<in> set xs \<or> (\<exists>c \<in> set xs. cover_frames c + 1 < 140 \<and> c' = age_cover c)"
  by (induction xs rule: age_skip.induct) (auto split: if_splits)







text \<open>
  Claim C10. When the loop of \<open>predict\<close> stands at position \<open>length pre\<close> and removes the
  expired entry \<open>e1\<close> there, the entry \<open>e2\<close> that shifts into the position is left as it
  is, whatever its counter, and the loop goes on with the entries behind it. A ledger of two
  entries at 139 loses only the first in one call.
\<close>

theorem C10_predict_skips_after_pop:
  "(140 \<le> cover_frames e1 + 1 \<longrightarrow>
      predict_covered (length pre) (pre @ e1 # e2 # rest) = pre @ e2 # predict_covered 0 rest)
   \<and> Covered_lists (predict E (T\<lparr>Covered_lists := [(1, b, 139), (2, b, 139)]\<rparr>)) = [(2, b, 139)]"
  by (simp add: predict_covered_age_skip predict_covered_0 Covered_lists_predict cover_frames_def)

theorem C10_predict_skips_after_pop_witness:
  "140 \<le> cover_frames (1, (0, 0, 10, 10), 139) + 1
   \<and> predict_covered (length [(3, (5, 5, 10, 10), 0)])
        ([(3, (5, 5, 10, 10), 0)] @ (1, (0, 0, 10, 10), 139) # (2, (0, 0, 10, 10), 200) # [])
      = [(3, (5, 5, 10, 10), 0), (2, (0, 0, 10, 10), 200)]"
  using C10_predict_skips_after_pop [THEN conjunct1, of "(1, (0, 0, 10, 10), 139)" "[(3, (5, 5, 10, 10), 0)]" "(2, (0, 0, 10, 10), 200)" "[]"]
  by (simp add: cover_frames_def predict_covered_done)

section \<open>Properties of new_id_track and _initiate_track\<close>

lemma sqrt_le_60: "sqrt x \<le> 60 \<longleftrightarrow> x \<le> 3600"
proof -
  have "sqrt 3600 = sqrt (60\<^sup>2)" by simp
  also have "\<dots> = 60" by (simp only: real_sqrt_abs abs_numeral)
  finally have s: "sqrt 3600 = 60" .
  have "sqrt x \<le> 60 \<longleftrightarrow> sqrt x \<le> sqrt 3600" by (simp only: s)
  also have "\<dots> \<longleftrightarrow> x \<le> 3600" by (rule real_sqrt_le_iff)
  finally show ?thesis .
qed

lemma in_window_squared:
  "in_window example_env (x1, y1, w1, h1) (i, (x2, y2, w2, h2), n) \<longleftrightarrow>
     1 < (x2 - x1)\<^sup>2 + (y2 - y1)\<^sup>2 \<and> (x2 - x1)\<^sup>2 + (y2 - y1)\<^sup>2 \<le> 3600"
  by (simp add: in_window_def corner_distance_def cover_box_def sqrt_le_60 example_env_def)

lemma new_id_scan_Cons:
  "new_id_scan E detection (c # rest) i =
     (if in_window E detection c then Some (i, cover_id c)
      else new_id_scan E detection rest (Suc i))"
  by (cases detection; cases "cover_box c")
     (simp add: in_window_def corner_distance_def Let_def)

lemma new_id_scan_none:
  "\<forall>e \<in> set cl. \<not> in_window E detection e \<Longrightarrow> new_id_scan E detection cl i = None"
  by (induction cl arbitrary: i) (simp_all add: new_id_scan_Cons del: new_id_scan.simps(2))

lemma new_id_scan_first:
  "\<forall>e \<in> set pre. \<not> in_window E detection e \<Longrightarrow> in_window E detection c \<Longrightarrow>
   new_id_scan E detection (pre @ c # post) i = Some (i + length pre, cover_id c)"
  by (induction pre arbitrary: i) (simp_all add: new_id_scan_Cons del: new_id_scan.simps(2))

lemma new_id_track_reuse:
  assumes "Covered_lists T = pre @ c # post" "\<forall>e \<in> set pre. \<not> in_window E detection e"
    "in_window E detection c"
  shows "new_id_track E T detection = ((True, cover_id c), T\<lparr>Covered_lists := pre @ post\<rparr>)"
  using new_id_scan_first [OF assms(2,3), of post 0] assms(1)
  by (simp add: new_id_track_def pop_def)

lemma new_id_track_fresh:
  assumes "\<forall>e \<in> set (Covered_lists T). \<not> in_window E detection e"
  shows "new_id_track E T detection = ((False, - 1), T)"
  using new_id_scan_none [OF assms, of 0] by (simp add: new_id_track_def)

lemma initiate_all_fold:
  "list_all (\<lambda>i. i < length detections) idxs \<Longrightarrow>
   initiate_all E detections idxs T =
     Some (fold (\<lambda>i T'. initiate_track E T' (detections ! i)) idxs T)"
  by (induction idxs arbitrary: T) simp_all

text \<open>
  Claim C1, as amended. \<open>_initiate_track\<close> consults the covered ledger first: if some
  entry lies in the window \<open>1 < D <= 60\<close>, where \<open>D\<close> is the distance between the top-left
  corners of the entry's box and the detection's box as the program computes it in floating
  point, the new track receives the id of the first such entry, that entry is removed from
  the ledger and the id counter is unchanged; if no entry lies in the window, the track
  receives the next sequential id and the counter is incremented. \<open>update\<close> does this for
  each unmatched detection in turn.
\<close>

theorem C1_initiate_track:
  "(Covered_lists T = pre @ c # post \<and> (\<forall>e \<in> set pre. \<not> in_window E (tlwh d) e)
      \<and> in_window E (tlwh d) c \<longrightarrow>
      initiate_track E T d =
        T\<lparr>tracks := tracks T @
             [Track (kf_initiate E (tlwh d)) (cover_id c) (n_init T) (max_age T) (feature d)],
          Covered_lists := pre @ post\<rparr>)
   \<and> ((\<forall>e \<in> set (Covered_lists T). \<not> in_window E (tlwh d) e) \<longrightarrow>
      initiate_track E T d =
        T\<lparr>tracks := tracks T @
             [Track (kf_initiate E (tlwh d)) (next_id T) (n_init T) (max_age T) (feature d)],
          next_id := next_id T + 1\<rparr>)
   \<and> (list_all (\<lambda>i. i < length detections) idxs \<longrightarrow>
      initiate_all E detections idxs T =
        Some (fold (\<lambda>i T'. initiate_track E T' (detections ! i)) idxs T))"
proof (intro conjI impI)
  assume "Covered_lists T = pre @ c # post \<and> (\<forall>e \<in> set pre. \<not> in_window E (tlwh d) e)
      \<and> in_window E (tlwh d) c"
  then show "initiate_track E T d =
        T\<lparr>tracks := tracks T @
             [Track (kf_initiate E (tlwh d)) (cover_id c) (n_init T) (max_age T) (feature d)],
          Covered_lists := pre @ post\<rparr>"
    by (simp add: initiate_track_def new_id_track_reuse)
next
  assume "\<forall>e \<in> set (Covered_lists T). \<not> in_window E (tlwh d) e"
  then show "initiate_track E T d =
        T\<lparr>tracks := tracks T @
             [Track (kf_initiate E (tlwh d)) (next_id T) (n_init T) (max_age T) (feature d)],
          next_id := next_id T + 1\<rparr>"
    by (simp add: initiate_track_def new_id_track_fresh)
next
  assume "list_all (\<lambda>i. i < length detections) idxs"
  then show "initiate_all E detections idxs T =
        Some (fold (\<lambda>i T'. initiate_track E T' (detections ! i)) idxs T)"
    by (rule initiate_all_fold)
qed

theorem C1_initiate_track_witness:
  "\<not> in_window example_env (0, 0, 10, 10) (5, (300, 400, 10, 10), 3)
   \<and> in_window example_env (0, 0, 10, 10) (7, (3, 4, 10, 10), 0)
   \<and> map track_id (tracks (initiate_track example_env ledger_tracker
         \<lparr>tlwh = (0, 0, 10, 10), confidence = 1, feature = 0\<rparr>)) = [7]
   \<and> Covered_lists (initiate_track example_env ledger_tracker
         \<lparr>tlwh = (0, 0, 10, 10), confidence = 1, feature = 0\<rparr>) = [(5, (300, 400, 10, 10), 3)]
   \<and> next_id (initiate_track example_env ledger_tracker
         \<lparr>tlwh = (0, 0, 10, 10), confidence = 1, feature = 0\<rparr>) = 8
   \<and> \<not> in_window example_env (3, 4, 10, 10) (5, (300, 400, 10, 10), 3)
   \<and> \<not> in_window example_env (3, 4, 10, 10) (7, (3, 4, 10, 10), 0)
   \<and> map track_id (tracks (initiate_track example_env ledger_tracker
         \<lparr>tlwh = (3, 4, 10, 10), confidence = 1, feature = 0\<rparr>)) = [8]
   \<and> next_id (initiate_track example_env ledger_tracker
         \<lparr>tlwh = (3, 4, 10, 10), confidence = 1, feature = 0\<rparr>) = 9"
proof -
  let ?d = "\<lparr>tlwh = (0, 0, 10, 10), confidence = 1, feature = 0::nat\<rparr>"
  let ?d' = "\<lparr>tlwh = (3, 4, 10, 10), confidence = 1, feature = 0::nat\<rparr>"
  have w1: "\<not> in_window example_env (0, 0, 10, 10) (5, (300, 400, 10, 10), 3)"
    by (simp add: in_window_squared)
  have w2: "in_window example_env (0, 0, 10, 10) (7, (3, 4, 10, 10), 0)"
    by (simp add: in_window_squared)
  have w3: "\<not> in_window example_env (3, 4, 10, 10) (5, (300, 400, 10, 10), 3)"
    by (simp add: in_window_squared)
  have w4: "\<not> in_window example_env (3, 4, 10, 10) (7, (3, 4, 10, 10), 0)"
    by (simp add: in_window_squared)
  have r: "initiate_track example_env ledger_tracker ?d =
        ledger_tracker\<lparr>tracks := tracks ledger_tracker @
             [Track (kf_initiate example_env (tlwh ?d)) (cover_id (7, (3, 4, 10, 10), 0))
                (n_init ledger_tracker) (max_age ledger_tracker) (feature ?d)],
          Covered_lists := [(5, (300, 400, 10, 10), 3)] @ []\<rparr>"
    using C1_initiate_track [THEN conjunct1, of ledger_tracker "[(5, (300, 400, 10, 10), 3)]"
        "(7, (3, 4, 10, 10), 0)" "[]" example_env ?d] w1 w2
    by (simp add: ledger_tracker_def)
  have f: "initiate_track example_env ledger_tracker ?d' =
        ledger_tracker\<lparr>tracks := tracks ledger_tracker @
             [Track (kf_initiate example_env (tlwh ?d')) (next_id ledger_tracker)
                (n_init ledger_tracker) (max_age ledger_tracker) (feature ?d')],
          next_id := next_id ledger_tracker + 1\<rparr>"
    using C1_initiate_track [THEN conjunct2, THEN conjunct1, of ledger_tracker example_env ?d'] w3 w4
    by (simp add: ledger_tracker_def)
  show ?thesis
    unfolding r f using w1 w2 w3 w4
    by (simp add: ledger_tracker_def Tracker_def Track_def cover_id_def)
qed

text \<open>
  Claim C1 as stated fails: the ledger box \<open>(0, 0, 10, 10)\<close> and the detection box
  \<open>(0, 0, 16, 18)\<close> have centres \<open>(5, 5)\<close> and \<open>(8, 9)\<close>, at distance 5, inside the
  window, but the same top-left corner, so the program computes \<open>D = 0\<close> (exactly, in
  floating point too) and the entry is not reused: the track gets the next id 8 and the
  ledger keeps the entry.
\<close>

theorem C1_counterexample:
  "1 < sqrt (((0 + 16 / 2) - (0 + 10 / 2))\<^sup>2 + ((0 + 18 / 2) - (0 + 10 / 2))\<^sup>2)
   \<and> sqrt (((0 + 16 / 2) - (0 + 10 / 2))\<^sup>2 + ((0 + 18 / 2) - (0 + 10 / 2))\<^sup>2) \<le> (60 :: real)
   \<and> map track_id (tracks (initiate_track example_env
        ((Tracker () 0.9 40 11)\<lparr>next_id := 8, Covered_lists := [(7, (0, 0, 10, 10), 0)]\<rparr>)
        \<lparr>tlwh = (0, 0, 16, 18), confidence = 1, feature = 0\<rparr>)) = [8]
   \<and> Covered_lists (initiate_track example_env
        ((Tracker () 0.9 40 11)\<lparr>next_id := 8, Covered_lists := [(7, (0, 0, 10, 10), 0)]\<rparr>)
        \<lparr>tlwh = (0, 0, 16, 18), confidence = 1, feature = 0\<rparr>) = [(7, (0, 0, 10, 10), 0)]"
proof -
  have "\<not> in_window example_env (0, 0, 16, 18) (7, (0, 0, 10, 10), 0)"
    by (simp add: in_window_squared)
  then have "new_id_track example_env ((Tracker () 0.9 40 11 :: (tlwh, nat, unit) tracker)
        \<lparr>next_id := 8, Covered_lists := [(7, (0, 0, 10, 10), 0)]\<rparr>) (0, 0, 16, 18)
      = ((False, - 1), (Tracker () 0.9 40 11)\<lparr>next_id := 8, Covered_lists := [(7, (0, 0, 10, 10), 0)]\<rparr>)"
    by (simp add: new_id_track_fresh)
  then show ?thesis
    by (simp add: initiate_track_def Tracker_def Track_def sqrt_le_60)
qed

section \<open>Properties of update\<close>

lemma state_code_3 [simp]: "state_code s = 3 \<longleftrightarrow> s = Deleted"
  by (cases s) simp_all

lemma apply_misses_Cons:
  "apply_misses E tc (k # ks) T =
     (if k < length (tracks T) then
        apply_misses E tc ks
          (T\<lparr>tracks := (tracks T)[k := miss E tc (tracks T ! k)],
             next_id := next_id T - (if first_miss_deleted (miss E tc (tracks T ! k)) then 1 else 0)\<rparr>)
      else None)"
  by (simp add: miss_def first_miss_deleted_def Let_def)

lemma apply_misses_distinct:
  "distinct ks \<Longrightarrow> list_all (\<lambda>k. k < length (tracks T)) ks \<Longrightarrow>
   apply_misses E tc ks T =
     Some (T\<lparr>tracks := map (\<lambda>i. if i \<in> set ks then miss E tc (tracks T ! i) else tracks T ! i)
                          [0 ..< length (tracks T)],
             next_id := next_id T -
                int (length [k \<leftarrow> ks. first_miss_deleted (miss E tc (tracks T ! k))])\<rparr>)"
proof (induction ks arbitrary: T)
  case Nil
  then show ?case by (simp add: map_nth)
next
  case (Cons k ks)
  let ?T = "T\<lparr>tracks := (tracks T)[k := miss E tc (tracks T ! k)],
             next_id := next_id T - (if first_miss_deleted (miss E tc (tracks T ! k)) then 1 else 0)\<rparr>"
  from Cons.prems have k: "k < length (tracks T)" "k \<notin> set ks" "distinct ks"
    and ks: "list_all (\<lambda>k. k < length (tracks ?T)) ks"
    by simp_all
  have same: "tracks ?T ! i = tracks T ! i" if "i \<in> set ks" for i
  proof -
    from that k(2) have "i \<noteq> k" by auto
    then show ?thesis by simp
  qed
  have tr: "map (\<lambda>i. if i \<in> set ks then miss E tc (tracks ?T ! i) else tracks ?T ! i)
               [0 ..< length (tracks ?T)]
          = map (\<lambda>i. if i \<in> set (k # ks) then miss E tc (tracks T ! i) else tracks T ! i)
               [0 ..< length (tracks T)]"
  proof (rule map_cong)
    show "[0 ..< length (tracks ?T)] = [0 ..< length (tracks T)]" by simp
  next
    fix i assume "i \<in> set [0 ..< length (tracks T)]"
    then have i: "i < length (tracks T)" by simp
    show "(if i \<in> set ks then miss E tc (tracks ?T ! i) else tracks ?T ! i)
        = (if i \<in> set (k # ks) then miss E tc (tracks T ! i) else tracks T ! i)"
    proof (cases "i = k")
      case True
      then show ?thesis using k(1,2) by simp
    next
      case False
      then show ?thesis by simp
    qed
  qed
  have cs: "[j \<leftarrow> ks. first_miss_deleted (miss E tc (tracks ?T ! j))]
          = [j \<leftarrow> ks. first_miss_deleted (miss E tc (tracks T ! j))]"
    by (rule filter_cong) (simp_all only: same)
  have "apply_misses E tc (k # ks) T = apply_misses E tc ks ?T"
    using k(1) by (simp only: apply_misses_Cons if_True)
  also have "\<dots> = Some (?T\<lparr>tracks := map (\<lambda>i. if i \<in> set ks then miss E tc (tracks ?T ! i) else tracks ?T ! i)
                          [0 ..< length (tracks ?T)],
             next_id := next_id ?T -
                int (length [k \<leftarrow> ks. first_miss_deleted (miss E tc (tracks ?T ! k))])\<rparr>)"
    by (rule Cons.IH [OF k(3) ks])
  finally show ?case
    unfolding tr cs by simp
qed

lemma apply_misses_order:
  assumes "distinct ks" "distinct ks'" "set ks = set ks'"
    "list_all (\<lambda>k. k < length (tracks T)) ks"
  shows "apply_misses E tc ks T = apply_misses E tc ks' T"
proof -
  have "list_all (\<lambda>k. k < length (tracks T)) ks'"
    using assms(3,4) by (simp add: list_all_iff)
  moreover have "length [k \<leftarrow> ks. P k] = length [k \<leftarrow> ks'. P k]" for P :: "nat \<Rightarrow> bool"
    using assms(1,2,3) by (simp add: distinct_length_filter)
  ultimately show ?thesis
    using assms by (simp add: apply_misses_distinct)
qed

lemma apply_matches_frame:
  "apply_matches E detections ms T = Some T1 \<Longrightarrow>
   \<exists>ts. T1 = T\<lparr>tracks := ts\<rparr> \<and> length ts = length (tracks T)"
proof (induction ms arbitrary: T)
  case Nil
  then show ?case by (auto intro: exI [of _ "tracks T"])
next
  case (Cons m ms)
  obtain ti di where m: "m = (ti, di)" by (cases m)
  let ?T = "T\<lparr>tracks := (tracks T)[ti := Track_update E (tracks T ! ti) (detections ! di)]\<rparr>"
  from Cons.prems m have "apply_matches E detections ms ?T = Some T1"
    by (simp split: if_splits)
  from Cons.IH [OF this] show ?case by auto
qed

lemma apply_matches_untouched:
  "apply_matches E detections ms T = Some T1 \<Longrightarrow> k \<notin> fst ` set ms \<Longrightarrow>
   tracks T1 ! k = tracks T ! k"
proof (induction ms arbitrary: T)
  case Nil
  then show ?case by simp
next
  case (Cons m ms)
  obtain ti di where m: "m = (ti, di)" by (cases m)
  let ?T = "T\<lparr>tracks := (tracks T)[ti := Track_update E (tracks T ! ti) (detections ! di)]\<rparr>"
  from Cons.prems m have s: "apply_matches E detections ms ?T = Some T1" and ne: "k \<noteq> ti"
    and nin: "k \<notin> fst ` set ms"
    by (auto split: if_splits)
  from Cons.IH [OF s nin] ne show ?case by simp
qed

lemma apply_misses_in_range:
  "apply_misses E tc ks T = Some T2 \<Longrightarrow> list_all (\<lambda>k. k < length (tracks T)) ks"
proof (induction ks arbitrary: T)
  case Nil
  then show ?case by simp
next
  case (Cons k ks)
  let ?T = "T\<lparr>tracks := (tracks T)[k := miss E tc (tracks T ! k)],
             next_id := next_id T - (if first_miss_deleted (miss E tc (tracks T ! k)) then 1 else 0)\<rparr>"
  have k: "k < length (tracks T)"
  proof (rule ccontr)
    assume "\<not> k < length (tracks T)"
    then have "apply_misses E tc (k # ks) T = None" by (simp only: apply_misses_Cons if_False)
    with Cons.prems show False by simp
  qed
  then have "apply_misses E tc (k # ks) T = apply_misses E tc ks ?T"
    by (simp only: apply_misses_Cons if_True)
  with Cons.prems have s: "apply_misses E tc ks ?T = Some T2" by simp
  from Cons.IH [OF s] k show ?case by simp
qed

lemma initiate_track_tracks:
  "\<exists>t. tracks (initiate_track E T d) = tracks T @ [t] \<and> state t = Tentative \<and> \<not> Covered t
       \<and> mean t = kf_initiate E (tlwh d)"
  by (auto simp: initiate_track_def new_id_track_def Track_def Let_def
      split: prod.splits option.splits if_splits)

lemma initiate_track_metric: "metric (initiate_track E T d) = metric T"
  by (auto simp: initiate_track_def new_id_track_def Let_def
      split: prod.splits option.splits if_splits)

lemma initiate_all_tracks:
  "initiate_all E detections idxs T = Some T3 \<Longrightarrow>
   \<exists>new. tracks T3 = tracks T @ new \<and> length new = length idxs
        \<and> list_all (\<lambda>t. state t = Tentative \<and> \<not> Covered t) new
        \<and> map mean new = map (\<lambda>i. kf_initiate E (tlwh (detections ! i))) idxs"
proof (induction idxs arbitrary: T)
  case Nil
  then show ?case by simp
next
  case (Cons i idxs)
  let ?T = "initiate_track E T (detections ! i)"
  from Cons.prems have s: "initiate_all E detections idxs ?T = Some T3"
    by (simp split: if_splits)
  from Cons.IH [OF s] obtain new where new: "tracks T3 = tracks ?T @ new" "length new = length idxs"
    "list_all (\<lambda>t. state t = Tentative \<and> \<not> Covered t) new"
    "map mean new = map (\<lambda>i. kf_initiate E (tlwh (detections ! i))) idxs"
    by blast
  obtain t where t: "tracks ?T = tracks T @ [t]" "state t = Tentative" "\<not> Covered t"
    "mean t = kf_initiate E (tlwh (detections ! i))"
    using initiate_track_tracks by blast
  show ?case
    by (rule exI [of _ "t # new"]) (simp add: new t)
qed

lemma initiate_all_metric:
  "initiate_all E detections idxs T = Some T3 \<Longrightarrow> metric T3 = metric T"
  by (induction idxs arbitrary: T) (auto simp: initiate_track_metric split: if_splits)

lemma match_distinct:
  "match E T detections = Some (ms, uts, uds) \<Longrightarrow> distinct uts \<and> sorted uts"
  by (auto simp: match_def Let_def split: prod.splits if_splits)

lemma update_tracks_stages:
  "update_tracks E T detections = Some T3 \<Longrightarrow>
   \<exists>ms uts uds T1 T2. match E T detections = Some (ms, uts, uds)
     \<and> apply_matches E detections ms T = Some T1
     \<and> apply_misses E (map (to_tlwh E) (tracks T)) uts T1 = Some T2
     \<and> initiate_all E detections uds T2 = Some T3"
  by (auto simp: update_tracks_def Let_def split: bind_splits prod.splits)

lemma miss_time [simp]: "time_since_update (miss E tc t) = time_since_update t"
  by (simp add: miss_def mark_missed_def is_Covered_def)

lemma after_misses:
  assumes "distinct uts" "apply_misses E tc uts T1 = Some T2"
  shows "length (tracks T2) = length (tracks T1)"
    and "next_id T2 = next_id T1 - int (length [k \<leftarrow> uts. first_miss_deleted (tracks T2 ! k)])"
    and "list_all (\<lambda>k. k < length (tracks T1) \<and> tracks T2 ! k = miss E tc (tracks T1 ! k)) uts"
    and "metric T2 = metric T1" and "Covered_lists T2 = Covered_lists T1"
proof -
  have r: "list_all (\<lambda>k. k < length (tracks T1)) uts"
    using assms(2) by (rule apply_misses_in_range)
  have T2: "T2 = T1\<lparr>tracks := map (\<lambda>i. if i \<in> set uts then miss E tc (tracks T1 ! i) else tracks T1 ! i)
                          [0 ..< length (tracks T1)],
             next_id := next_id T1 -
                int (length [k \<leftarrow> uts. first_miss_deleted (miss E tc (tracks T1 ! k))])\<rparr>"
    using apply_misses_distinct [OF assms(1) r, of E tc] assms(2) by simp
  show "length (tracks T2) = length (tracks T1)" by (simp add: T2)
  show "metric T2 = metric T1" "Covered_lists T2 = Covered_lists T1" by (simp_all add: T2)
  have nth: "tracks T2 ! k = miss E tc (tracks T1 ! k)" if "k \<in> set uts" for k
  proof -
    from that r have "k < length (tracks T1)" by (simp add: list_all_iff)
    with that show ?thesis by (simp add: T2)
  qed
  show "list_all (\<lambda>k. k < length (tracks T1) \<and> tracks T2 ! k = miss E tc (tracks T1 ! k)) uts"
    using r nth by (simp add: list_all_iff)
  have "[k \<leftarrow> uts. first_miss_deleted (tracks T2 ! k)]
      = [k \<leftarrow> uts. first_miss_deleted (miss E tc (tracks T1 ! k))]"
    by (rule filter_cong) (simp_all add: nth)
  then show "next_id T2 = next_id T1 - int (length [k \<leftarrow> uts. first_miss_deleted (tracks T2 ! k)])"
    by (simp add: T2)
qed

text \<open>
  Claim C4. In \<open>update\<close>, the loop over the unmatched tracks lowers the id counter by one
  for each unmatched track that, after its miss, is Deleted with \<open>time_since_update = 1\<close>:
  the counter after the loop is the counter at entry minus the number of such tracks (each
  unmatched index occurs once).
\<close>

theorem C4_first_miss_decrement:
  "update_tracks E T detections = Some T3 \<longrightarrow>
   (\<exists>ms uts uds T1 T2. match E T detections = Some (ms, uts, uds)
     \<and> apply_matches E detections ms T = Some T1
     \<and> apply_misses E (map (to_tlwh E) (tracks T)) uts T1 = Some T2
     \<and> initiate_all E detections uds T2 = Some T3
     \<and> distinct uts
     \<and> next_id T2 = next_id T
         - int (length [k \<leftarrow> uts. state (tracks T2 ! k) = Deleted
                                  \<and> time_since_update (tracks T2 ! k) = 1]))"
proof
  assume "update_tracks E T detections = Some T3"
  then obtain ms uts uds T1 T2 where st: "match E T detections = Some (ms, uts, uds)"
     "apply_matches E detections ms T = Some T1"
     "apply_misses E (map (to_tlwh E) (tracks T)) uts T1 = Some T2"
     "initiate_all E detections uds T2 = Some T3"
    using update_tracks_stages by blast
  have d: "distinct uts" using st(1) match_distinct by blast
  have "next_id T1 = next_id T" using apply_matches_frame [OF st(2)] by auto
  with after_misses(2) [OF d st(3)]
  have "next_id T2 = next_id T
         - int (length [k \<leftarrow> uts. state (tracks T2 ! k) = Deleted
                                  \<and> time_since_update (tracks T2 ! k) = 1])"
    by (simp add: first_miss_deleted_def)
  with st d show "\<exists>ms uts uds T1 T2. match E T detections = Some (ms, uts, uds)
     \<and> apply_matches E detections ms T = Some T1
     \<and> apply_misses E (map (to_tlwh E) (tracks T)) uts T1 = Some T2
     \<and> initiate_all E detections uds T2 = Some T3
     \<and> distinct uts
     \<and> next_id T2 = next_id T
         - int (length [k \<leftarrow> uts. state (tracks T2 ! k) = Deleted
                                  \<and> time_since_update (tracks T2 ! k) = 1])"
    by blast
qed

text \<open>
  Claim C9. After the loops of \<open>update\<close>, the track at every unmatched index is the miss
  applied to the result of the cover test, the test being evaluated at the threshold 0.75
  against the boxes that all tracks held on entry to \<open>update\<close>, before any matched track
  was corrected; an unmatched track that no match names enters the test as it was on entry.
\<close>

theorem C9_cover_test_before_miss:
  "update_tracks E T detections = Some T3 \<longrightarrow>
   (\<exists>ms uts uds T1. match E T detections = Some (ms, uts, uds)
     \<and> apply_matches E detections ms T = Some T1
     \<and> list_all (\<lambda>k. k < length (tracks T) \<and> k < length (tracks T3)
          \<and> tracks T3 ! k =
              mark_missed (is_Covered E (map (to_tlwh E) (tracks T)) 0.75 (tracks T1 ! k))
          \<and> (k \<notin> fst ` set ms \<longrightarrow> tracks T1 ! k = tracks T ! k)) uts)"
proof
  assume "update_tracks E T detections = Some T3"
  then obtain ms uts uds T1 T2 where st: "match E T detections = Some (ms, uts, uds)"
     "apply_matches E detections ms T = Some T1"
     "apply_misses E (map (to_tlwh E) (tracks T)) uts T1 = Some T2"
     "initiate_all E detections uds T2 = Some T3"
    using update_tracks_stages by blast
  let ?tc = "map (to_tlwh E) (tracks T)"
  have d: "distinct uts" using st(1) match_distinct by blast
  have len1: "length (tracks T1) = length (tracks T)"
    using apply_matches_frame [OF st(2)] by auto
  have len2: "length (tracks T2) = length (tracks T1)"
    using after_misses(1) [OF d st(3)] .
  obtain new where new: "tracks T3 = tracks T2 @ new"
    using initiate_all_tracks [OF st(4)] by blast
  have m: "list_all (\<lambda>k. k < length (tracks T1) \<and> tracks T2 ! k = miss E ?tc (tracks T1 ! k)) uts"
    using after_misses(3) [OF d st(3)] .
  have "list_all (\<lambda>k. k < length (tracks T) \<and> k < length (tracks T3)
          \<and> tracks T3 ! k = mark_missed (is_Covered E ?tc 0.75 (tracks T1 ! k))
          \<and> (k \<notin> fst ` set ms \<longrightarrow> tracks T1 ! k = tracks T ! k)) uts"
    unfolding list_all_iff
  proof (intro ballI conjI impI)
    fix k assume k: "k \<in> set uts"
    with m have k1: "k < length (tracks T1)" and k2: "tracks T2 ! k = miss E ?tc (tracks T1 ! k)"
      by (simp_all add: list_all_iff)
    show "k < length (tracks T)" using k1 len1 by simp
    show "k < length (tracks T3)" using k1 len2 new by simp
    show "tracks T3 ! k = mark_missed (is_Covered E ?tc 0.75 (tracks T1 ! k))"
      using k1 k2 len2 new by (simp add: nth_append miss_def)
    assume "k \<notin> fst ` set ms"
    then show "tracks T1 ! k = tracks T ! k"
      using apply_matches_untouched [OF st(2)] by simp
  qed
  with st show "\<exists>ms uts uds T1. match E T detections = Some (ms, uts, uds)
     \<and> apply_matches E detections ms T = Some T1
     \<and> list_all (\<lambda>k. k < length (tracks T) \<and> k < length (tracks T3)
          \<and> tracks T3 ! k = mark_missed (is_Covered E ?tc 0.75 (tracks T1 ! k))
          \<and> (k \<notin> fst ` set ms \<longrightarrow> tracks T1 ! k = tracks T ! k)) uts"
    by blast
qed

section \<open>The two-frame scenario, evaluated\<close>

lemma frame2_match:
  "match example_env frame2_tracker frame2_detections = Some ([(1, 0)], [0], [1])"
  by (simp add: match_def frame2_tracker_def frame2_detections_def example_env_def Tracker_def
      Track_def is_confirmed_def)

lemmas example_simps = frame2_tracker_def frame2_detections_def frame1_detections_def
  example_env_def Tracker_def Track_def is_confirmed_def is_deleted_def

lemma frame2_update_tracks:
  "update_tracks example_env frame2_tracker frame2_detections = Some frame2_working"
  by (simp add: update_tracks_def frame2_match)
     (simp add: example_simps frame2_working_def Track_update_def miss_def mark_missed_def
        is_Covered_def initiate_track_def new_id_track_def to_tlwh_def)

lemma frame2_update:
  "update example_env frame2_tracker frame2_detections = Some frame2_result"
  by (simp add: update_def frame2_update_tracks)
     (simp add: frame2_working_def frame2_result_def sweep_def refit_def refit_args_def
        Tracker_def Track_def is_confirmed_def is_deleted_def)

lemma frame1_update:
  "map_option (predict example_env) (update example_env (Tracker () 0.9 40 11) frame1_detections)
     = Some frame2_tracker"
  by (simp add: update_def update_tracks_def match_def predict_def predict_covered_0
        sweep_def refit_def refit_args_def Track_predict_def
        example_simps initiate_track_def new_id_track_def)

theorem C4_first_miss_decrement_witness:
  "update_tracks example_env frame2_tracker frame2_detections = Some frame2_working
   \<and> (\<exists>ms uts uds T1 T2. match example_env frame2_tracker frame2_detections = Some (ms, uts, uds)
     \<and> apply_matches example_env frame2_detections ms frame2_tracker = Some T1
     \<and> apply_misses example_env (map (to_tlwh example_env) (tracks frame2_tracker)) uts T1 = Some T2
     \<and> initiate_all example_env frame2_detections uds T2 = Some frame2_working
     \<and> uts = [0]
     \<and> state (tracks T2 ! 0) = Deleted \<and> time_since_update (tracks T2 ! 0) = 1
     \<and> next_id frame2_tracker = 3 \<and> next_id T2 = 2)"
proof -
  from C4_first_miss_decrement [of example_env frame2_tracker frame2_detections frame2_working]
    frame2_update_tracks
  obtain ms uts uds T1 T2 where st: "match example_env frame2_tracker frame2_detections = Some (ms, uts, uds)"
     "apply_matches example_env frame2_detections ms frame2_tracker = Some T1"
     "apply_misses example_env (map (to_tlwh example_env) (tracks frame2_tracker)) uts T1 = Some T2"
     "initiate_all example_env frame2_detections uds T2 = Some frame2_working"
     "next_id T2 = next_id frame2_tracker
         - int (length [k \<leftarrow> uts. state (tracks T2 ! k) = Deleted
                                  \<and> time_since_update (tracks T2 ! k) = 1])"
    by blast
  from st(1) have m: "ms = [(1, 0)]" "uts = [0]" "uds = [1]"
    by (simp_all add: frame2_match)
  from st(2) m have T1: "T1 = frame2_tracker\<lparr>tracks := (tracks frame2_tracker)[1 :=
        Track_update example_env (tracks frame2_tracker ! 1) (frame2_detections ! 0)]\<rparr>"
    by (simp add: frame2_tracker_def frame2_detections_def Tracker_def)
  from st(3) m have T2: "tracks T2 ! 0 = miss example_env (map (to_tlwh example_env) (tracks frame2_tracker)) (tracks T1 ! 0)"
    by (auto simp: T1 apply_misses_Cons frame2_tracker_def Tracker_def simp del: apply_misses.simps(2))
  have d: "state (tracks T2 ! 0) = Deleted \<and> time_since_update (tracks T2 ! 0) = 1"
    unfolding T2 T1
    by (simp add: frame2_tracker_def Tracker_def Track_def miss_def mark_missed_def is_Covered_def
        example_env_def)
  have n: "next_id frame2_tracker = 3" by (simp add: frame2_tracker_def)
  from st(5) d m have "next_id T2 = 2" by (simp add: n)
  with st m d n frame2_update_tracks show ?thesis by blast
qed

theorem C9_cover_test_before_miss_witness:
  "update_tracks example_env frame2_tracker frame2_detections = Some frame2_working
   \<and> (\<exists>ms uts uds T1. match example_env frame2_tracker frame2_detections = Some (ms, uts, uds)
     \<and> apply_matches example_env frame2_detections ms frame2_tracker = Some T1
     \<and> uts = [0] \<and> ms = [(1, 0)]
     \<and> tracks frame2_working ! 0 =
          mark_missed (is_Covered example_env (map (to_tlwh example_env) (tracks frame2_tracker)) 0.75
             (tracks frame2_tracker ! 0)))"
proof -
  from C9_cover_test_before_miss [of example_env frame2_tracker frame2_detections frame2_working]
    frame2_update_tracks
  obtain ms uts uds T1 where st: "match example_env frame2_tracker frame2_detections = Some (ms, uts, uds)"
     "apply_matches example_env frame2_detections ms frame2_tracker = Some T1"
     "list_all (\<lambda>k. k < length (tracks frame2_tracker) \<and> k < length (tracks frame2_working)
          \<and> tracks frame2_working ! k =
              mark_missed (is_Covered example_env (map (to_tlwh example_env) (tracks frame2_tracker)) 0.75 (tracks T1 ! k))
          \<and> (k \<notin> fst ` set ms \<longrightarrow> tracks T1 ! k = tracks frame2_tracker ! k)) uts"
    by blast
  from st(1) have m: "ms = [(1, 0)]" "uts = [0]" "uds = [1]"
    by (simp_all add: frame2_match)
  from st(3) m have "tracks frame2_working ! 0 =
          mark_missed (is_Covered example_env (map (to_tlwh example_env) (tracks frame2_tracker)) 0.75
             (tracks frame2_tracker ! 0))"
    by simp
  with st m frame2_update_tracks show ?thesis by blast
qed

section \<open>Properties of the sweep and the refit\<close>

lemma concat_map_if:
  "concat (map (\<lambda>t. if P t then [f t] else []) xs) = map f (filter P xs)"
  by (induction xs) simp_all

lemma refit_loop_eq:
  "refit_loop ts fs tg =
     (map clear_features ts,
      fs @ concat (map features [t \<leftarrow> ts. is_confirmed t]),
      tg @ concat (map (\<lambda>t. replicate (length (features t)) (track_id t)) [t \<leftarrow> ts. is_confirmed t]))"
  by (induction ts arbitrary: fs tg) (simp_all add: clear_features_def map_replicate_const)

lemma refit_args_eq:
  "refit_args T =
     (concat (map features [t \<leftarrow> tracks T. is_confirmed t]),
      concat (map (\<lambda>t. replicate (length (features t)) (track_id t)) [t \<leftarrow> tracks T. is_confirmed t]),
      map track_id [t \<leftarrow> tracks T. is_confirmed t])"
  by (simp add: refit_args_def refit_loop_eq concat_map_if)

lemma refit_eq:
  "refit E T =
     T\<lparr>tracks := map clear_features (tracks T),
       metric := partial_fit E (metric T) (fst (refit_args T)) (fst (snd (refit_args T)))
                   (snd (snd (refit_args T)))\<rparr>"
  by (simp add: refit_def refit_loop_eq split: prod.splits)

lemma clear_features_fields [simp]:
  "track_id (clear_features t) = track_id t" "state (clear_features t) = state t"
  "Covered (clear_features t) = Covered t" "is_confirmed (clear_features t) = is_confirmed t"
  "is_deleted (clear_features t) = is_deleted t"
  by (simp_all add: clear_features_def is_confirmed_def is_deleted_def)

lemma update_stages:
  "update E T detections = Some T' \<Longrightarrow>
   \<exists>W. update_tracks E T detections = Some W \<and> T' = refit E (sweep E W)"
  by (auto simp: update_def)

lemma tracks_sweep: "tracks (sweep E W) = [t \<leftarrow> tracks W. \<not> is_deleted t \<and> \<not> Covered t]"
  by (simp add: sweep_def)

lemma Covered_lists_sweep:
  "Covered_lists (sweep E W) = Covered_lists W @ map (cover_entry E) [t \<leftarrow> tracks W. Covered t]"
  by (simp add: sweep_def concat_map_if)

lemma metric_sweep: "metric (sweep E W) = metric W"
  by (simp add: sweep_def)

text \<open>
  Claim C7. The refit at the end of \<open>update\<close> works on the active tracks left by the sweep:
  the features handed to \<open>partial_fit\<close> are the accumulated features of the confirmed
  tracks, in track order, the targets repeat each confirmed track's id once per feature,
  \<open>active_targets\<close> are the ids of the confirmed tracks, and afterwards every confirmed
  track has an empty accumulator, ids and states being untouched.
\<close>

theorem C7_refit:
  "refit_args T =
     (concat (map features [t \<leftarrow> tracks T. is_confirmed t]),
      concat (map (\<lambda>t. replicate (length (features t)) (track_id t)) [t \<leftarrow> tracks T. is_confirmed t]),
      map track_id [t \<leftarrow> tracks T. is_confirmed t])
   \<and> metric (refit E T) =
       partial_fit E (metric T) (fst (refit_args T)) (fst (snd (refit_args T)))
         (snd (snd (refit_args T)))
   \<and> list_all (\<lambda>t. is_confirmed t \<longrightarrow> features t = []) (tracks (refit E T))
   \<and> map track_id (tracks (refit E T)) = map track_id (tracks T)
   \<and> map state (tracks (refit E T)) = map state (tracks T)
   \<and> (update E T0 detections = Some T' \<longrightarrow>
        (\<exists>W. update_tracks E T0 detections = Some W \<and> T' = refit E (sweep E W)))"
proof (intro conjI impI)
  show "list_all (\<lambda>t. is_confirmed t \<longrightarrow> features t = []) (tracks (refit E T))"
    by (simp add: refit_eq list_all_iff) (auto simp: clear_features_def is_confirmed_def)
  assume "update E T0 detections = Some T'"
  then show "\<exists>W. update_tracks E T0 detections = Some W \<and> T' = refit E (sweep E W)"
    by (rule update_stages)
qed (simp_all add: refit_args_eq refit_eq comp_def)

text \<open>
  Claim C5. After \<open>update\<close>, with \<open>W\<close> the tracker after the three loops: the ledger is
  the ledger of \<open>W\<close> followed by one entry for each covered track of \<open>W\<close>; the active set
  is made of the tracks of \<open>W\<close> that are neither deleted nor covered, in order (a confirmed
  one with its accumulator emptied by the refit); so no active track is covered or deleted,
  a covered track is in the ledger and not in the active set, a deleted track is not in the
  active set, and every other track is in the active set.
\<close>

theorem C5_sweep:
  "update E T detections = Some T' \<longrightarrow>
   (\<exists>W. update_tracks E T detections = Some W
     \<and> Covered_lists T' = Covered_lists W @ map (cover_entry E) [t \<leftarrow> tracks W. Covered t]
     \<and> tracks T' = map clear_features [t \<leftarrow> tracks W. \<not> is_deleted t \<and> \<not> Covered t]
     \<and> list_all (\<lambda>t. \<not> Covered t \<and> \<not> is_deleted t) (tracks T')
     \<and> list_all (\<lambda>t.
          (Covered t \<longrightarrow> cover_entry E t \<in> set (Covered_lists T')
                         \<and> clear_features t \<notin> set (tracks T'))
          \<and> (is_deleted t \<longrightarrow> clear_features t \<notin> set (tracks T'))
          \<and> (\<not> Covered t \<and> \<not> is_deleted t \<longrightarrow> clear_features t \<in> set (tracks T')))
        (tracks W))"
proof
  assume "update E T detections = Some T'"
  then obtain W where W: "update_tracks E T detections = Some W" and T': "T' = refit E (sweep E W)"
    using update_stages by blast
  have cl: "Covered_lists T' = Covered_lists W @ map (cover_entry E) [t \<leftarrow> tracks W. Covered t]"
    by (simp add: T' refit_eq Covered_lists_sweep)
  have tr: "tracks T' = map clear_features [t \<leftarrow> tracks W. \<not> is_deleted t \<and> \<not> Covered t]"
    by (simp add: T' refit_eq tracks_sweep)
  have act: "list_all (\<lambda>t. \<not> Covered t \<and> \<not> is_deleted t) (tracks T')"
    by (simp add: tr list_all_iff)
  have "list_all (\<lambda>t.
          (Covered t \<longrightarrow> cover_entry E t \<in> set (Covered_lists T')
                         \<and> clear_features t \<notin> set (tracks T'))
          \<and> (is_deleted t \<longrightarrow> clear_features t \<notin> set (tracks T'))
          \<and> (\<not> Covered t \<and> \<not> is_deleted t \<longrightarrow> clear_features t \<in> set (tracks T')))
        (tracks W)"
    unfolding list_all_iff
  proof (intro ballI conjI impI)
    fix t assume t: "t \<in> set (tracks W)"
    { assume c: "Covered t"
      with t show "cover_entry E t \<in> set (Covered_lists T')" by (simp add: cl)
      show "clear_features t \<notin> set (tracks T')"
      proof
        assume "clear_features t \<in> set (tracks T')"
        with act have "\<not> Covered (clear_features t)" unfolding list_all_iff by blast
        with c show False by simp
      qed }
    { assume d: "is_deleted t"
      show "clear_features t \<notin> set (tracks T')"
      proof
        assume "clear_features t \<in> set (tracks T')"
        with act have "\<not> is_deleted (clear_features t)" unfolding list_all_iff by blast
        with d show False by simp
      qed }
    { assume "\<not> Covered t \<and> \<not> is_deleted t"
      with t show "clear_features t \<in> set (tracks T')" by (simp add: tr) }
  qed
  with W cl tr act show "\<exists>W. update_tracks E T detections = Some W
     \<and> Covered_lists T' = Covered_lists W @ map (cover_entry E) [t \<leftarrow> tracks W. Covered t]
     \<and> tracks T' = map clear_features [t \<leftarrow> tracks W. \<not> is_deleted t \<and> \<not> Covered t]
     \<and> list_all (\<lambda>t. \<not> Covered t \<and> \<not> is_deleted t) (tracks T')
     \<and> list_all (\<lambda>t.
          (Covered t \<longrightarrow> cover_entry E t \<in> set (Covered_lists T')
                         \<and> clear_features t \<notin> set (tracks T'))
          \<and> (is_deleted t \<longrightarrow> clear_features t \<notin> set (tracks T'))
          \<and> (\<not> Covered t \<and> \<not> is_deleted t \<longrightarrow> clear_features t \<in> set (tracks T')))
        (tracks W)"
    by blast
qed

lemma covered_update_tracks:
  "update_tracks cover_env confirmed_tracker [] =
     Some (confirmed_tracker\<lparr>tracks :=
        [(tracks confirmed_tracker ! 0)\<lparr>Covered := True\<rparr>,
         (tracks confirmed_tracker ! 1)\<lparr>state := Deleted\<rparr>]\<rparr>)"
  by (simp add: update_tracks_def match_def cover_env_def example_env_def confirmed_tracker_def
      Tracker_def Track_def is_confirmed_def mark_missed_def is_Covered_def)

lemma covered_update: "update cover_env confirmed_tracker [] = Some covered_result"
  by (simp add: update_def covered_update_tracks)
     (simp add: sweep_def refit_def refit_args_def confirmed_tracker_def covered_result_def
        Tracker_def Track_def is_deleted_def cover_entry_def to_tlwh_def cover_env_def
        example_env_def)

theorem C5_sweep_witness:
  "update cover_env confirmed_tracker [] = Some covered_result
   \<and> (\<exists>W. update_tracks cover_env confirmed_tracker [] = Some W
     \<and> map Covered (tracks W) = [True, False]
     \<and> map is_deleted (tracks W) = [False, True]
     \<and> Covered_lists covered_result =
          Covered_lists W @ map (cover_entry cover_env) [t \<leftarrow> tracks W. Covered t]
     \<and> Covered_lists covered_result = [(3, (0, 0, 10, 10), 0)]
     \<and> tracks covered_result = [])"
proof -
  obtain W where W: "update_tracks cover_env confirmed_tracker [] = Some W"
    "Covered_lists covered_result =
          Covered_lists W @ map (cover_entry cover_env) [t \<leftarrow> tracks W. Covered t]"
    by (insert C5_sweep [THEN mp, OF covered_update], elim exE conjE, rule that)
  from W(1) have "W = confirmed_tracker\<lparr>tracks :=
        [(tracks confirmed_tracker ! 0)\<lparr>Covered := True\<rparr>,
         (tracks confirmed_tracker ! 1)\<lparr>state := Deleted\<rparr>]\<rparr>"
    by (simp add: covered_update_tracks)
  then have "map Covered (tracks W) = [True, False]" "map is_deleted (tracks W) = [False, True]"
    by (simp_all add: confirmed_tracker_def Tracker_def Track_def is_deleted_def)
  moreover have "Covered_lists covered_result = [(3, (0, 0, 10, 10), 0)]" "tracks covered_result = []"
    by (simp_all add: covered_result_def Tracker_def)
  ultimately have "update_tracks cover_env confirmed_tracker [] = Some W
     \<and> map Covered (tracks W) = [True, False]
     \<and> map is_deleted (tracks W) = [False, True]
     \<and> Covered_lists covered_result =
          Covered_lists W @ map (cover_entry cover_env) [t \<leftarrow> tracks W. Covered t]
     \<and> Covered_lists covered_result = [(3, (0, 0, 10, 10), 0)]
     \<and> tracks covered_result = []"
    using W by (intro conjI)
  then have "\<exists>W. update_tracks cover_env confirmed_tracker [] = Some W
     \<and> map Covered (tracks W) = [True, False]
     \<and> map is_deleted (tracks W) = [False, True]
     \<and> Covered_lists covered_result =
          Covered_lists W @ map (cover_entry cover_env) [t \<leftarrow> tracks W. Covered t]
     \<and> Covered_lists covered_result = [(3, (0, 0, 10, 10), 0)]
     \<and> tracks covered_result = []"
    by (rule exI)
  with covered_update show ?thesis by (rule conjI)
qed

theorem C7_refit_witness:
  "is_confirmed (tracks confirmed_tracker ! 0)
   \<and> refit_args confirmed_tracker = ([5, 6], [3, 3], [3])
   \<and> map features (tracks (refit example_env confirmed_tracker)) = [[], [7]]
   \<and> update example_env frame2_tracker frame2_detections = Some frame2_result
   \<and> (\<exists>W. update_tracks example_env frame2_tracker frame2_detections = Some W
         \<and> frame2_result = refit example_env (sweep example_env W))"
proof -
  note c = C7_refit [of confirmed_tracker example_env frame2_tracker frame2_detections frame2_result]
  have 1: "is_confirmed (tracks confirmed_tracker ! 0)"
    by (simp add: confirmed_tracker_def Tracker_def Track_def is_confirmed_def)
  have 2: "refit_args confirmed_tracker = ([5, 6], [3, 3], [3])"
    using c [THEN conjunct1]
    by (simp add: confirmed_tracker_def Tracker_def Track_def is_confirmed_def)
  have 3: "map features (tracks (refit example_env confirmed_tracker)) = [[], [7]]"
    by (simp add: refit_eq confirmed_tracker_def Tracker_def Track_def clear_features_def
        is_confirmed_def)
  have 4: "\<exists>W. update_tracks example_env frame2_tracker frame2_detections = Some W
         \<and> frame2_result = refit example_env (sweep example_env W)"
    using c [THEN conjunct2, THEN conjunct2, THEN conjunct2, THEN conjunct2, THEN conjunct2,
        THEN mp, OF frame2_update] .
  show ?thesis using 1 2 3 frame2_update 4 by (intro conjI)
qed

section \<open>Properties of _match\<close>

lemma match_Some:
  assumes "matching_cascade E (metric T) (max_age T) (tracks T) detections
             [i \<leftarrow> [0 ..< length (tracks T)]. is_confirmed (tracks T ! i)] = (ma, ua, ud)"
    and "match E T detections = Some (ms, uts, uds)"
  shows "list_all (\<lambda>k. k < length (tracks T)) ua"
    and "\<exists>mb ub. min_cost_matching E (max_iou_distance T) (tracks T) detections
            ([i \<leftarrow> [0 ..< length (tracks T)]. \<not> is_confirmed (tracks T ! i)]
               @ [k \<leftarrow> ua. time_since_update (tracks T ! k) = 1]) ud = (mb, ub, uds)
          \<and> ms = ma @ mb
          \<and> uts = sort (remdups ([k \<leftarrow> ua. time_since_update (tracks T ! k) \<noteq> 1] @ ub))"
  using assms by (auto simp: match_def Let_def split: prod.splits if_splits)

text \<open>
  Claim C6. When \<open>_match\<close> returns, the IOU stage was run on the candidate list made of
  the unconfirmed tracks followed by the cascade-unmatched tracks whose
  \<open>time_since_update\<close> is 1; a cascade-unmatched track whose \<open>time_since_update\<close> is not 1
  is returned unmatched and, being confirmed, is not a candidate.
\<close>

theorem C6_match_candidates:
  "matching_cascade E (metric T) (max_age T) (tracks T) detections
       [i \<leftarrow> [0 ..< length (tracks T)]. is_confirmed (tracks T ! i)] = (ma, ua, ud)
   \<and> match E T detections = Some (ms, uts, uds) \<longrightarrow>
   (\<exists>cands mb ub.
       cands = [i \<leftarrow> [0 ..< length (tracks T)]. \<not> is_confirmed (tracks T ! i)]
                 @ [k \<leftarrow> ua. time_since_update (tracks T ! k) = 1]
     \<and> min_cost_matching E (max_iou_distance T) (tracks T) detections cands ud = (mb, ub, uds)
     \<and> ms = ma @ mb
     \<and> set cands = {i. i < length (tracks T) \<and> \<not> is_confirmed (tracks T ! i)}
                     \<union> {k \<in> set ua. time_since_update (tracks T ! k) = 1}
     \<and> set uts = {k \<in> set ua. time_since_update (tracks T ! k) \<noteq> 1} \<union> set ub
     \<and> list_all (\<lambda>k. time_since_update (tracks T ! k) \<noteq> 1 \<longrightarrow>
            k \<in> set uts \<and> (is_confirmed (tracks T ! k) \<longrightarrow> k \<notin> set cands)) ua)"
proof
  assume a: "matching_cascade E (metric T) (max_age T) (tracks T) detections
       [i \<leftarrow> [0 ..< length (tracks T)]. is_confirmed (tracks T ! i)] = (ma, ua, ud)
   \<and> match E T detections = Some (ms, uts, uds)"
  let ?cands = "[i \<leftarrow> [0 ..< length (tracks T)]. \<not> is_confirmed (tracks T ! i)]
                 @ [k \<leftarrow> ua. time_since_update (tracks T ! k) = 1]"
  from match_Some(2) [of E T detections ma ua ud ms uts uds] a
  obtain mb ub where m: "min_cost_matching E (max_iou_distance T) (tracks T) detections ?cands ud
        = (mb, ub, uds)" "ms = ma @ mb"
     "uts = sort (remdups ([k \<leftarrow> ua. time_since_update (tracks T ! k) \<noteq> 1] @ ub))"
    by blast
  have sc: "set ?cands = {i. i < length (tracks T) \<and> \<not> is_confirmed (tracks T ! i)}
                     \<union> {k \<in> set ua. time_since_update (tracks T ! k) = 1}"
    by auto
  have su: "set uts = {k \<in> set ua. time_since_update (tracks T ! k) \<noteq> 1} \<union> set ub"
    by (auto simp: m(3))
  have "list_all (\<lambda>k. time_since_update (tracks T ! k) \<noteq> 1 \<longrightarrow>
            k \<in> set uts \<and> (is_confirmed (tracks T ! k) \<longrightarrow> k \<notin> set ?cands)) ua"
    unfolding list_all_iff su by auto
  with m sc su show "\<exists>cands mb ub.
       cands = [i \<leftarrow> [0 ..< length (tracks T)]. \<not> is_confirmed (tracks T ! i)]
                 @ [k \<leftarrow> ua. time_since_update (tracks T ! k) = 1]
     \<and> min_cost_matching E (max_iou_distance T) (tracks T) detections cands ud = (mb, ub, uds)
     \<and> ms = ma @ mb
     \<and> set cands = {i. i < length (tracks T) \<and> \<not> is_confirmed (tracks T ! i)}
                     \<union> {k \<in> set ua. time_since_update (tracks T ! k) = 1}
     \<and> set uts = {k \<in> set ua. time_since_update (tracks T ! k) \<noteq> 1} \<union> set ub
     \<and> list_all (\<lambda>k. time_since_update (tracks T ! k) \<noteq> 1 \<longrightarrow>
            k \<in> set uts \<and> (is_confirmed (tracks T ! k) \<longrightarrow> k \<notin> set cands)) ua"
    by blast
qed

lemma match_tracker_cascade:
  "matching_cascade example_env (metric match_tracker) (max_age match_tracker)
       (tracks match_tracker) []
       [i \<leftarrow> [0 ..< length (tracks match_tracker)]. is_confirmed (tracks match_tracker ! i)]
     = ([], [0, 1], [])"
  by (simp add: match_tracker_def example_env_def Tracker_def Track_def is_confirmed_def)

lemma match_tracker_match: "match example_env match_tracker [] = Some ([], [0, 1, 2], [])"
  by (simp add: match_def match_tracker_def example_env_def Tracker_def Track_def is_confirmed_def)

theorem C6_match_candidates_witness:
  "matching_cascade example_env (metric match_tracker) (max_age match_tracker)
       (tracks match_tracker) []
       [i \<leftarrow> [0 ..< length (tracks match_tracker)]. is_confirmed (tracks match_tracker ! i)]
     = ([], [0, 1], [])
   \<and> match example_env match_tracker [] = Some ([], [0, 1, 2], [])
   \<and> (\<exists>mb ub. min_cost_matching example_env (max_iou_distance match_tracker)
          (tracks match_tracker) [] [2, 0] [] = (mb, ub, []))
   \<and> map (\<lambda>t. time_since_update t) (tracks match_tracker) = [1, 3, 1]
   \<and> map is_confirmed (tracks match_tracker) = [True, True, False]"
proof -
  have h: "matching_cascade example_env (metric match_tracker) (max_age match_tracker)
       (tracks match_tracker) []
       [i \<leftarrow> [0 ..< length (tracks match_tracker)]. is_confirmed (tracks match_tracker ! i)]
     = ([], [0, 1], [])
   \<and> match example_env match_tracker [] = Some ([], [0, 1, 2], [])"
    using match_tracker_cascade match_tracker_match by (rule conjI)
  from C6_match_candidates [THEN mp, OF h]
  obtain cands mb ub where c:
     "cands = [i \<leftarrow> [0 ..< length (tracks match_tracker)]. \<not> is_confirmed (tracks match_tracker ! i)]
                 @ [k \<leftarrow> [0, 1]. time_since_update (tracks match_tracker ! k) = 1]"
     "min_cost_matching example_env (max_iou_distance match_tracker) (tracks match_tracker) []
         cands [] = (mb, ub, [])"
    by blast
  from c(1) have "cands = [2, 0]"
    by (simp add: match_tracker_def Tracker_def Track_def is_confirmed_def)
  with c(2) have "\<exists>mb ub. min_cost_matching example_env (max_iou_distance match_tracker)
          (tracks match_tracker) [] [2, 0] [] = (mb, ub, [])"
    by blast
  moreover have "map (\<lambda>t. time_since_update t) (tracks match_tracker) = [1, 3, 1]"
    "map is_confirmed (tracks match_tracker) = [True, True, False]"
    by (simp_all add: match_tracker_def Tracker_def Track_def is_confirmed_def)
  ultimately show ?thesis using match_tracker_cascade match_tracker_match by (intro conjI)
qed

section \<open>update on an empty candidate set\<close>

lemma sort_remdups_range:
  assumes "set xs = {..< n}"
  shows "sort (remdups xs) = [0 ..< n]"
proof (rule sorted_distinct_set_unique)
  have "set (sort (remdups xs)) = set xs" by simp
  also have "\<dots> = {..< n}" by (rule assms)
  also have "\<dots> = set [0 ..< n]" by (simp add: lessThan_atLeast0)
  finally show "set (sort (remdups xs)) = set [0 ..< n]" .
qed simp_all

lemma confirmed_split:
  "set [i \<leftarrow> [0 ..< n]. P i] \<union> set [i \<leftarrow> [0 ..< n]. \<not> P i] = {..< n}"
  by auto

lemma cascade_empty:
  assumes "empty_assignment_ok E" "ds = [] \<or> tis = []"
    "matching_cascade E g a ts ds tis = (m, ut, ud)"
  shows "m = []" "set ut = set tis" "distinct ud" "set ud = {..< length ds}"
proof -
  note h = assms(1) [unfolded empty_assignment_ok_def, THEN conjunct1, rule_format, OF assms(2)]
  have "case matching_cascade E g a ts ds tis of
           (m, ut, ud) \<Rightarrow> m = [] \<and> set ut = set tis \<and> distinct ud \<and> set ud = {..< length ds}"
    by (rule h)
  then show "m = []" "set ut = set tis" "distinct ud" "set ud = {..< length ds}"
    by (simp_all add: assms(3))
qed

lemma min_cost_empty:
  assumes "empty_assignment_ok E" "dis = [] \<or> tis = []"
    "min_cost_matching E thr ts ds tis dis = (m, ut, ud)"
  shows "m = []" "set ut = set tis" "set ud = set dis" "distinct dis \<Longrightarrow> distinct ud"
proof -
  note h = assms(1) [unfolded empty_assignment_ok_def, THEN conjunct2, rule_format, OF assms(2)]
  have "case min_cost_matching E thr ts ds tis dis of
           (m, ut, ud) \<Rightarrow> m = [] \<and> set ut = set tis \<and> set ud = set dis
                           \<and> (distinct dis \<longrightarrow> distinct ud)"
    by (rule h)
  then show "m = []" "set ut = set tis" "set ud = set dis" "distinct dis \<Longrightarrow> distinct ud"
    by (simp_all add: assms(3))
qed

lemma match_no_detections:
  assumes "empty_assignment_ok E"
  shows "match E T [] = Some ([], [0 ..< length (tracks T)], [])"
proof -
  let ?n = "length (tracks T)"
  let ?C = "[i \<leftarrow> [0 ..< ?n]. is_confirmed (tracks T ! i)]"
  let ?U = "[i \<leftarrow> [0 ..< ?n]. \<not> is_confirmed (tracks T ! i)]"
  obtain ma ua ud where c: "matching_cascade E (metric T) (max_age T) (tracks T) [] ?C = (ma, ua, ud)"
    by (cases "matching_cascade E (metric T) (max_age T) (tracks T) [] ?C") auto
  have ca: "ma = []" "set ua = set ?C" "ud = []"
    using cascade_empty [OF assms _ c] by simp_all
  have r: "list_all (\<lambda>k. k < ?n) ua"
    using ca(2) by (auto simp: list_all_iff)
  let ?cands = "?U @ [k \<leftarrow> ua. time_since_update (tracks T ! k) = 1]"
  obtain mb ub ud' where m: "min_cost_matching E (max_iou_distance T) (tracks T) [] ?cands [] = (mb, ub, ud')"
    by (cases "min_cost_matching E (max_iou_distance T) (tracks T) [] ?cands []") auto
  have mb: "mb = []" "set ub = set ?cands" "ud' = []"
    using min_cost_empty(1,2,3) [OF assms _ m] by simp_all
  have "set ([k \<leftarrow> ua. time_since_update (tracks T ! k) \<noteq> 1] @ ub) = set ?C \<union> set ?U"
    using ca(2) mb(2) by auto
  also have "\<dots> = {..< ?n}" by (rule confirmed_split)
  finally have "sort (remdups ([k \<leftarrow> ua. time_since_update (tracks T ! k) \<noteq> 1] @ ub)) = [0 ..< ?n]"
    by (rule sort_remdups_range)
  then show ?thesis
    using c ca r m mb by (simp add: match_def Let_def)
qed

lemma apply_misses_all:
  "apply_misses E tc [0 ..< length (tracks T)] T =
     Some (T\<lparr>tracks := map (miss E tc) (tracks T),
             next_id := next_id T -
               int (length [k \<leftarrow> [0 ..< length (tracks T)]. first_miss_deleted (miss E tc (tracks T ! k))])\<rparr>)"
proof -
  have "map (\<lambda>i. if i \<in> set [0 ..< length (tracks T)] then miss E tc (tracks T ! i) else tracks T ! i)
          [0 ..< length (tracks T)] = map (miss E tc) (tracks T)"
    by (rule nth_equalityI) simp_all
  then show ?thesis
    using apply_misses_distinct [of "[0 ..< length (tracks T)]" T E tc]
    by (simp add: list_all_iff)
qed

lemma update_tracks_no_detections:
  assumes "empty_assignment_ok E"
  shows "update_tracks E T [] =
     Some (T\<lparr>tracks := map (miss E (map (to_tlwh E) (tracks T))) (tracks T),
             next_id := next_id T -
               int (length [k \<leftarrow> [0 ..< length (tracks T)].
                      first_miss_deleted (miss E (map (to_tlwh E) (tracks T)) (tracks T ! k))])\<rparr>)"
  by (simp add: update_tracks_def match_no_detections [OF assms] apply_misses_all
      del: apply_misses.simps)

lemma match_no_tracks:
  assumes "empty_assignment_ok E" "tracks T = []"
  shows "\<exists>ud. match E T ds = Some ([], [], ud) \<and> distinct ud \<and> set ud = {..< length ds}"
proof -
  obtain ma ua ud where c: "matching_cascade E (metric T) (max_age T) [] ds [] = (ma, ua, ud)"
    by (cases "matching_cascade E (metric T) (max_age T) [] ds []") auto
  have ca: "ma = []" "ua = []" "distinct ud" "set ud = {..< length ds}"
    using cascade_empty [OF assms(1) _ c] by simp_all
  obtain mb ub ud' where m: "min_cost_matching E (max_iou_distance T) [] ds [] ud = (mb, ub, ud')"
    by (cases "min_cost_matching E (max_iou_distance T) [] ds [] ud") auto
  have mb: "mb = []" "ub = []" "set ud' = {..< length ds}" "distinct ud'"
    using min_cost_empty [OF assms(1) _ m] ca by simp_all
  have "match E T ds = Some ([], [], ud')"
    using c ca m mb assms(2) by (simp add: match_def Let_def)
  with mb show ?thesis by (intro exI [of _ ud'] conjI)
qed

lemma initiate_all_Some:
  "list_all (\<lambda>i. i < length detections) idxs \<Longrightarrow> \<exists>W. initiate_all E detections idxs T = Some W"
  by (simp add: initiate_all_fold)

lemma clear_features_tentative: "state t = Tentative \<Longrightarrow> clear_features t = t"
  by (simp add: clear_features_def is_confirmed_def)

lemma distinct_range_length:
  assumes "distinct ud" "set ud = {..< n}"
  shows "length ud = n"
proof -
  have "length ud = card (set ud)" by (rule distinct_card [OF assms(1), symmetric])
  also have "\<dots> = n" by (simp only: assms(2) card_lessThan)
  finally show ?thesis .
qed

lemma update_no_tracks:
  assumes "empty_assignment_ok E" "tracks T = []"
  shows "\<exists>ud T'. match E T ds = Some ([], [], ud) \<and> distinct ud \<and> set ud = {..< length ds}
          \<and> update E T ds = Some T' \<and> length (tracks T') = length ds
          \<and> map mean (tracks T') = map (\<lambda>i. kf_initiate E (tlwh (ds ! i))) ud
          \<and> list_all (\<lambda>t. state t = Tentative \<and> \<not> Covered t) (tracks T')"
proof -
  obtain ud where ud: "match E T ds = Some ([], [], ud)" "distinct ud" "set ud = {..< length ds}"
    by (insert match_no_tracks [OF assms, of ds], elim exE conjE, rule that)
  have r: "list_all (\<lambda>i. i < length ds) ud"
    unfolding list_all_iff ud(3) by simp
  then obtain W where W: "initiate_all E ds ud T = Some W"
    using initiate_all_Some by blast
  have ut: "update_tracks E T ds = Some W"
    by (simp add: update_tracks_def ud(1) W)
  from initiate_all_tracks [OF W] assms(2)
  obtain new where new: "tracks W = new" "length new = length ud"
    "list_all (\<lambda>t. state t = Tentative \<and> \<not> Covered t) new"
    "map mean new = map (\<lambda>i. kf_initiate E (tlwh (ds ! i))) ud"
    by auto
  have keep: "[t \<leftarrow> new. \<not> is_deleted t \<and> \<not> Covered t] = new"
    using new(3) by (auto simp: list_all_iff is_deleted_def intro!: filter_True)
  have clr: "map clear_features new = new"
    using new(3) by (auto simp: list_all_iff clear_features_tentative intro!: map_idI)
  let ?T' = "refit E (sweep E W)"
  have tr: "tracks ?T' = new"
    by (simp add: refit_eq tracks_sweep new(1) keep clr)
  have up: "update E T ds = Some ?T'"
    by (simp add: update_def ut)
  have len: "length (tracks ?T') = length ds"
    using distinct_range_length [OF ud(2,3)] new(2) tr by simp
  show ?thesis
    using ud up len new(3,4) unfolding tr [symmetric]
    by (intro exI [of _ ud] exI [of _ ?T'] conjI)
qed

lemma match_equal_no_detections: "match_equal ts ds tis [] = ([], tis, [])"
  by (induction tis) simp_all

lemma example_env_empty_ok: "empty_assignment_ok example_env"
  unfolding empty_assignment_ok_def
proof (intro conjI allI impI)
  fix g :: unit and a :: int and ts :: "(tlwh, nat) track list" and ds :: "nat detection list"
    and tis :: "nat list"
  assume "ds = [] \<or> tis = []"
  then show "case matching_cascade example_env g a ts ds tis of
           (m, ut, ud) \<Rightarrow> m = [] \<and> set ut = set tis \<and> distinct ud \<and> set ud = {..< length ds}"
    by (auto simp: example_env_def match_equal_no_detections)
next
  fix thr :: real and ts :: "(tlwh, nat) track list" and ds :: "nat detection list"
    and tis dis :: "nat list"
  assume "dis = [] \<or> tis = []"
  then show "case min_cost_matching example_env thr ts ds tis dis of
           (m, ut, ud) \<Rightarrow> m = [] \<and> set ut = set tis \<and> set ud = set dis
                           \<and> (distinct dis \<longrightarrow> distinct ud)"
    by (auto simp: example_env_def match_equal_no_detections)
qed


section \<open>Ids: uniqueness and allocation\<close>

lemma id_inv_Tracker: "id_inv (Tracker m max_iou maxage ninit)"
  by (simp add: id_inv_def ids_def Tracker_def)

lemma cover_id_age [simp]: "cover_id (age_cover c) = cover_id c"
  by (simp add: age_cover_def cover_id_def)

lemma age_skip_ids_subset: "set (map cover_id (age_skip xs)) \<subseteq> set (map cover_id xs)"
proof
  fix i assume "i \<in> set (map cover_id (age_skip xs))"
  then obtain c' where c': "c' \<in> set (age_skip xs)" "i = cover_id c'" by auto
  from age_skip_subset [OF c'(1)] c'(2) show "i \<in> set (map cover_id xs)" by auto
qed

lemma age_skip_ids_distinct:
  "distinct (map cover_id xs) \<Longrightarrow> distinct (map cover_id (age_skip xs))"
proof (induction xs rule: age_skip.induct)
  case 1
  then show ?case by simp
next
  case (2 x)
  then show ?case by simp
next
  case (3 x y ys)
  have s1: "set (map cover_id (age_skip ys)) \<subseteq> set (map cover_id ys)"
    by (rule age_skip_ids_subset)
  have s2: "set (map cover_id (age_skip (y # ys))) \<subseteq> set (map cover_id (y # ys))"
    by (rule age_skip_ids_subset)
  show ?case
  proof (cases "140 \<le> cover_frames x + 1")
    case True
    with 3 s1 show ?thesis by auto
  next
    case False
    with 3 s2 show ?thesis by auto
  qed
qed

lemma Track_predict_id [simp]: "track_id (Track_predict E t) = track_id t"
  by (simp add: Track_predict_def)

lemma ids_predict:
  "ids (predict E T) = map track_id (tracks T) @ map cover_id (age_skip (Covered_lists T))"
  by (simp add: ids_def predict_def predict_covered_0 comp_def)

lemma next_id_predict [simp]: "next_id (predict E T) = next_id T"
  by (simp add: predict_def)

lemma ids_predict_subset: "set (ids (predict E T)) \<subseteq> set (ids T)"
proof -
  have "set (ids (predict E T)) =
      set (map track_id (tracks T)) \<union> set (map cover_id (age_skip (Covered_lists T)))"
    by (simp only: ids_predict set_append)
  also have "\<dots> \<subseteq> set (map track_id (tracks T)) \<union> set (map cover_id (Covered_lists T))"
    using age_skip_ids_subset [of "Covered_lists T"] by blast
  also have "\<dots> = set (ids T)"
    by (simp only: ids_def set_append)
  finally show ?thesis .
qed

lemma id_inv_predict:
  assumes "id_inv T"
  shows "id_inv (predict E T)"
proof -
  from assms have d: "distinct (map track_id (tracks T) @ map cover_id (Covered_lists T))"
    and b: "\<forall>i \<in> set (ids T). 1 \<le> i \<and> i < next_id T" and n: "1 \<le> next_id T"
    by (simp_all add: id_inv_def ids_def list_all_iff)
  have "distinct (map cover_id (age_skip (Covered_lists T)))"
    using d by (simp add: age_skip_ids_distinct)
  moreover have "set (map track_id (tracks T)) \<inter> set (map cover_id (age_skip (Covered_lists T))) = {}"
    using d age_skip_ids_subset [of "Covered_lists T"] by auto
  ultimately have "distinct (ids (predict E T))"
    using d by (simp add: ids_predict)
  moreover have "\<forall>i \<in> set (ids (predict E T)). 1 \<le> i \<and> i < next_id T"
    using b ids_predict_subset [of E T] by blast
  ultimately show ?thesis
    using n by (simp add: id_inv_def list_all_iff)
qed

lemma Track_update_id [simp]: "track_id (Track_update E t d) = track_id t"
  by (simp add: Track_update_def Let_def)

lemma miss_id [simp]: "track_id (miss E tc t) = track_id t"
  by (simp add: miss_def mark_missed_def is_Covered_def)

lemma map_track_id_update:
  "track_id t = track_id (ts ! i) \<Longrightarrow> map track_id (ts[i := t]) = map track_id ts"
  by (cases "i < length ts") (simp_all add: map_update list_update_same_conv list_update_beyond)

lemma apply_matches_ids:
  "apply_matches E detections ms T = Some T1 \<Longrightarrow>
   map track_id (tracks T1) = map track_id (tracks T)"
proof (induction ms arbitrary: T)
  case Nil
  then show ?case by simp
next
  case (Cons m ms)
  obtain ti di where m: "m = (ti, di)" by (cases m)
  let ?T = "T\<lparr>tracks := (tracks T)[ti := Track_update E (tracks T ! ti) (detections ! di)]\<rparr>"
  from Cons.prems m have "apply_matches E detections ms ?T = Some T1"
    by (simp split: if_splits)
  from Cons.IH [OF this] show ?case by (simp add: map_track_id_update)
qed

lemma apply_misses_ids:
  "apply_misses E tc ks T = Some T2 \<Longrightarrow>
   map track_id (tracks T2) = map track_id (tracks T)"
proof (induction ks arbitrary: T)
  case Nil
  then show ?case by simp
next
  case (Cons k ks)
  let ?T = "T\<lparr>tracks := (tracks T)[k := miss E tc (tracks T ! k)],
             next_id := next_id T - (if first_miss_deleted (miss E tc (tracks T ! k)) then 1 else 0)\<rparr>"
  have "k < length (tracks T)"
    using apply_misses_in_range [OF Cons.prems] by simp
  then have "apply_misses E tc (k # ks) T = apply_misses E tc ks ?T"
    by (simp only: apply_misses_Cons if_True)
  with Cons.prems have "apply_misses E tc ks ?T = Some T2" by simp
  from Cons.IH [OF this] show ?case by (simp add: map_track_id_update)
qed

lemma new_id_scan_Some:
  "new_id_scan E detection cl j = Some (i, old) \<Longrightarrow>
   j \<le> i \<and> i - j < length cl \<and> old = cover_id (cl ! (i - j))"
proof (induction cl arbitrary: j)
  case Nil
  then show ?case by simp
next
  case (Cons c cl)
  show ?case
  proof (cases "in_window E detection c")
    case True
    with Cons.prems show ?thesis
      by (simp add: new_id_scan_Cons del: new_id_scan.simps(2))
  next
    case False
    with Cons.prems have "new_id_scan E detection cl (Suc j) = Some (i, old)"
      by (simp add: new_id_scan_Cons del: new_id_scan.simps(2))
    from Cons.IH [OF this] have "Suc j \<le> i" "i - Suc j < length cl"
      "old = cover_id (cl ! (i - Suc j))" by simp_all
    moreover from \<open>Suc j \<le> i\<close> have "i - j = Suc (i - Suc j)" by simp
    ultimately show ?thesis by simp
  qed
qed

lemma new_id_track_cases:
  "new_id_track E T detection = ((False, - 1), T)
   \<or> (\<exists>i < length (Covered_lists T).
        new_id_track E T detection =
          ((True, cover_id (Covered_lists T ! i)), T\<lparr>Covered_lists := pop i (Covered_lists T)\<rparr>))"
proof (cases "new_id_scan E detection (Covered_lists T) 0")
  case None
  then show ?thesis by (simp add: new_id_track_def)
next
  case (Some r)
  obtain i old where r: "r = (i, old)" by (cases r)
  from new_id_scan_Some [of E detection "Covered_lists T" 0 i old] Some r
  have i: "i < length (Covered_lists T)" "old = cover_id (Covered_lists T ! i)" by simp_all
  then have ne: "Covered_lists T \<noteq> []" by auto
  have "new_id_track E T detection =
          ((True, cover_id (Covered_lists T ! i)), T\<lparr>Covered_lists := pop i (Covered_lists T)\<rparr>)"
    using Some r i(2) ne by (simp add: new_id_track_def)
  with i(1) show ?thesis by blast
qed

lemma pop_ids:
  assumes "i < length cl"
  shows "set (f (cl ! i) # map f (pop i cl)) = set (map f cl)"
    and "distinct (A @ map f cl) \<Longrightarrow> distinct (A @ [f (cl ! i)] @ map f (pop i cl))"
proof -
  have cl: "cl = take i cl @ cl ! i # drop (Suc i) cl"
    using assms by (rule id_take_nth_drop)
  have "set (map f cl) = set (map f (take i cl @ cl ! i # drop (Suc i) cl))"
    using cl by simp
  then show "set (f (cl ! i) # map f (pop i cl)) = set (map f cl)"
    by (auto simp: pop_def)
  assume "distinct (A @ map f cl)"
  then have "distinct (A @ map f (take i cl @ cl ! i # drop (Suc i) cl))"
    using cl by simp
  then show "distinct (A @ [f (cl ! i)] @ map f (pop i cl))"
    by (auto simp: pop_def)
qed

lemma initiate_track_cases:
  "initiate_track E T d =
     T\<lparr>tracks := tracks T @
          [Track (kf_initiate E (tlwh d)) (next_id T) (n_init T) (max_age T) (feature d)],
       next_id := next_id T + 1\<rparr>
   \<or> (\<exists>i < length (Covered_lists T). initiate_track E T d =
     T\<lparr>tracks := tracks T @
          [Track (kf_initiate E (tlwh d)) (cover_id (Covered_lists T ! i)) (n_init T) (max_age T)
             (feature d)],
       Covered_lists := pop i (Covered_lists T)\<rparr>)"
  using new_id_track_cases [of E T "tlwh d"]
proof (elim disjE exE conjE)
  assume "new_id_track E T (tlwh d) = ((False, - 1), T)"
  then show ?thesis by (simp add: initiate_track_def)
next
  fix i assume i: "i < length (Covered_lists T)"
    and "new_id_track E T (tlwh d) =
          ((True, cover_id (Covered_lists T ! i)), T\<lparr>Covered_lists := pop i (Covered_lists T)\<rparr>)"
  then have "initiate_track E T d =
     T\<lparr>tracks := tracks T @
          [Track (kf_initiate E (tlwh d)) (cover_id (Covered_lists T ! i)) (n_init T) (max_age T)
             (feature d)],
       Covered_lists := pop i (Covered_lists T)\<rparr>"
    by (simp add: initiate_track_def)
  with i show ?thesis by blast
qed

lemma Track_id [simp]: "track_id (Track m tid ninit maxage feat) = tid"
  by (simp add: Track_def)

lemma id_inv_cong:
  "ids T' = ids T \<Longrightarrow> next_id T' = next_id T \<Longrightarrow> id_inv T \<Longrightarrow> id_inv T'"
  by (simp add: id_inv_def)

lemma id_invD:
  assumes "id_inv T"
  shows "distinct (ids T)" and "\<And>i. i \<in> set (ids T) \<Longrightarrow> 1 \<le> i \<and> i < next_id T"
    and "1 \<le> next_id T"
  using assms by (simp_all add: id_inv_def list_all_iff)

lemma id_invI:
  assumes "distinct (ids T)" and "\<And>i. i \<in> set (ids T) \<Longrightarrow> 1 \<le> i \<and> i < next_id T"
    and "1 \<le> next_id T"
  shows "id_inv T"
  using assms by (simp add: id_inv_def list_all_iff)

lemma initiate_track_step:
  assumes "id_inv V"
  shows "id_inv (initiate_track E V d) \<and> next_id V \<le> next_id (initiate_track E V d)
         \<and> set (ids (initiate_track E V d)) \<subseteq> set (ids V) \<union> {i. next_id V \<le> i}"
proof -
  let ?A = "map track_id (tracks V)"
  let ?cl = "Covered_lists V"
  note inv = id_invD [OF assms]
  have d: "distinct (?A @ map cover_id ?cl)" using inv(1) by (simp add: ids_def)
  have sV: "set (ids V) = set ?A \<union> set (map cover_id ?cl)" by (simp add: ids_def)
  from initiate_track_cases [of E V d] show ?thesis
  proof (elim disjE exE conjE)
    assume eq: "initiate_track E V d =
       V\<lparr>tracks := tracks V @
            [Track (kf_initiate E (tlwh d)) (next_id V) (n_init V) (max_age V) (feature d)],
         next_id := next_id V + 1\<rparr>"
    have i: "ids (initiate_track E V d) = ?A @ [next_id V] @ map cover_id ?cl"
      by (simp add: eq ids_def)
    have n: "next_id (initiate_track E V d) = next_id V + 1" by (simp add: eq)
    have fresh: "next_id V \<notin> set (ids V)" using inv(2) [of "next_id V"] by auto
    have s: "set (ids (initiate_track E V d)) = insert (next_id V) (set (ids V))"
      unfolding i sV by auto
    have "distinct (ids (initiate_track E V d))"
      using d fresh unfolding i sV by auto
    moreover have "1 \<le> j \<and> j < next_id (initiate_track E V d)"
      if "j \<in> set (ids (initiate_track E V d))" for j
      using that inv(2) [of j] inv(3) unfolding s n by auto
    moreover have "1 \<le> next_id (initiate_track E V d)" using inv(3) n by simp
    ultimately have "id_inv (initiate_track E V d)" by (rule id_invI)
    then show ?thesis using n s by auto
  next
    fix i assume il: "i < length ?cl" and eq: "initiate_track E V d =
       V\<lparr>tracks := tracks V @
            [Track (kf_initiate E (tlwh d)) (cover_id (?cl ! i)) (n_init V) (max_age V) (feature d)],
         Covered_lists := pop i ?cl\<rparr>"
    have i: "ids (initiate_track E V d) = ?A @ [cover_id (?cl ! i)] @ map cover_id (pop i ?cl)"
      by (simp add: eq ids_def)
    have n: "next_id (initiate_track E V d) = next_id V" by (simp add: eq)
    have "set (ids (initiate_track E V d)) = set ?A \<union> set (cover_id (?cl ! i) # map cover_id (pop i ?cl))"
      unfolding i by auto
    also have "\<dots> = set ?A \<union> set (map cover_id ?cl)"
      by (simp only: pop_ids(1) [OF il])
    finally have s: "set (ids (initiate_track E V d)) = set (ids V)" by (simp only: sV)
    have "distinct (ids (initiate_track E V d))"
      unfolding i using d by (rule pop_ids(2) [OF il])
    moreover have "1 \<le> j \<and> j < next_id (initiate_track E V d)"
      if "j \<in> set (ids (initiate_track E V d))" for j
      using that inv(2) [of j] unfolding s n by simp
    moreover have "1 \<le> next_id (initiate_track E V d)" using inv(3) n by simp
    ultimately have "id_inv (initiate_track E V d)" by (rule id_invI)
    then show ?thesis using n s by auto
  qed
qed

lemma initiate_all_step:
  assumes "id_inv V" "initiate_all E ds idxs V = Some W"
  shows "id_inv W \<and> next_id V \<le> next_id W
         \<and> set (ids W) \<subseteq> set (ids V) \<union> {i. next_id V \<le> i}"
  using assms
proof (induction idxs arbitrary: V)
  case Nil
  then show ?case by simp
next
  case (Cons k idxs)
  let ?V = "initiate_track E V (ds ! k)"
  from Cons.prems(2) have s: "initiate_all E ds idxs ?V = Some W"
    by (simp split: if_splits)
  note one = initiate_track_step [OF Cons.prems(1), of E "ds ! k"]
  from one have inv: "id_inv ?V" by (rule conjunct1)
  note rest = Cons.IH [OF inv s]
  from one rest show ?case by (auto 0 3)
qed

lemma distinct_sweep:
  "distinct (map f xs @ L) \<Longrightarrow>
   distinct (map f [t \<leftarrow> xs. \<not> D t \<and> \<not> C t] @ L @ map f [t \<leftarrow> xs. C t])"
  by (induction xs) auto

lemma cover_id_entry [simp]: "cover_id (cover_entry E t) = track_id t"
  by (simp add: cover_entry_def cover_id_def)

lemma ids_sweep:
  "ids (sweep E W) =
     map track_id [t \<leftarrow> tracks W. \<not> is_deleted t \<and> \<not> Covered t]
       @ map cover_id (Covered_lists W) @ map track_id [t \<leftarrow> tracks W. Covered t]"
  by (simp add: ids_def tracks_sweep Covered_lists_sweep comp_def)

lemma next_id_sweep [simp]: "next_id (sweep E W) = next_id W"
  by (simp add: sweep_def)

lemma sweep_step:
  assumes "id_inv W"
  shows "id_inv (sweep E W) \<and> set (ids (sweep E W)) \<subseteq> set (ids W)"
proof -
  note inv = id_invD [OF assms]
  have s: "set (ids (sweep E W)) \<subseteq> set (ids W)"
    unfolding ids_sweep by (auto simp: ids_def)
  have "distinct (ids (sweep E W))"
    unfolding ids_sweep using inv(1) unfolding ids_def by (rule distinct_sweep)
  moreover have "1 \<le> j \<and> j < next_id (sweep E W)" if "j \<in> set (ids (sweep E W))" for j
    using that s inv(2) [of j] by auto
  moreover have "1 \<le> next_id (sweep E W)" using inv(3) by simp
  ultimately have "id_inv (sweep E W)" by (rule id_invI)
  with s show ?thesis by simp
qed

lemma ids_refit [simp]: "ids (refit E V) = ids V"
  by (simp add: ids_def refit_eq comp_def)

lemma next_id_refit [simp]: "next_id (refit E V) = next_id V"
  by (simp add: refit_eq)

lemma quiet_updateD:
  assumes "quiet_update E T ds = Some T'"
  shows "\<exists>ms uts uds W. match E T ds = Some (ms, uts, uds) \<and> update_tracks E T ds = Some W
          \<and> list_all (\<lambda>k. \<not> first_miss_deleted (tracks W ! k)) uts \<and> T' = refit E (sweep E W)"
  using assms
  by (auto simp: quiet_update_def split: option.splits prod.splits if_splits)

lemma quiet_update_update:
  assumes "quiet_update E T ds = Some T'"
  shows "update E T ds = Some T'"
proof -
  obtain ms uts uds W where "update_tracks E T ds = Some W" "T' = refit E (sweep E W)"
    by (insert quiet_updateD [OF assms], elim exE conjE, rule that)
  then show ?thesis by (simp add: update_def)
qed

lemma quiet_update_step:
  assumes "id_inv T" "quiet_update E T ds = Some T'"
  shows "id_inv T' \<and> next_id T \<le> next_id T'
         \<and> set (ids T') \<subseteq> set (ids T) \<union> {i. next_id T \<le> i}"
proof -
  obtain ms uts uds W where m: "match E T ds = Some (ms, uts, uds)"
    and W: "update_tracks E T ds = Some W"
    and q: "list_all (\<lambda>k. \<not> first_miss_deleted (tracks W ! k)) uts"
    and T': "T' = refit E (sweep E W)"
    by (insert quiet_updateD [OF assms(2)], elim exE conjE, rule that)
  let ?tc = "map (to_tlwh E) (tracks T)"
  obtain T1 T2 where st: "apply_matches E ds ms T = Some T1"
     "apply_misses E ?tc uts T1 = Some T2" "initiate_all E ds uds T2 = Some W"
  proof -
    obtain ms' uts' uds' T1 T2 where a: "match E T ds = Some (ms', uts', uds')"
       "apply_matches E ds ms' T = Some T1"
       "apply_misses E ?tc uts' T1 = Some T2" "initiate_all E ds uds' T2 = Some W"
      by (insert update_tracks_stages [OF W], elim exE conjE, rule that)
    from a(1) m have "ms' = ms" "uts' = uts" "uds' = uds" by simp_all
    with a(2,3,4) show ?thesis by (intro that [of T1 T2]) simp_all
  qed
  have d: "distinct uts" using match_distinct [OF m] by simp
  obtain ts where T1: "T1 = T\<lparr>tracks := ts\<rparr>"
    by (insert apply_matches_frame [OF st(1)], elim exE conjE, rule that)
  have ids1: "ids T1 = ids T"
    using apply_matches_ids [OF st(1)] by (simp add: ids_def T1)
  have n1: "next_id T1 = next_id T" by (simp add: T1)
  note am = after_misses [OF d st(2)]
  obtain new where new: "tracks W = tracks T2 @ new"
    by (insert initiate_all_tracks [OF st(3)], elim exE conjE, rule that)
  have nofirst: "\<not> first_miss_deleted (tracks T2 ! k)" if "k \<in> set uts" for k
  proof -
    from that am(3) have "k < length (tracks T1)" by (simp add: list_all_iff)
    then have "tracks W ! k = tracks T2 ! k" by (simp add: new am(1) nth_append)
    moreover from that q have "\<not> first_miss_deleted (tracks W ! k)" by (simp add: list_all_iff)
    ultimately show ?thesis by simp
  qed
  have "[k \<leftarrow> uts. first_miss_deleted (tracks T2 ! k)] = []"
    using nofirst by (simp add: filter_empty_conv)
  with am(2) have n2: "next_id T2 = next_id T" by (simp add: n1)
  have ids2: "ids T2 = ids T"
    using apply_misses_ids [OF st(2)] am(5) ids1 by (simp add: ids_def)
  have inv2: "id_inv T2" using ids2 n2 assms(1) by (rule id_inv_cong)
  note ia = initiate_all_step [OF inv2 st(3)]
  from ia have invW: "id_inv W" by (rule conjunct1)
  note sw = sweep_step [OF invW, of E]
  have "id_inv T'"
    using sw [THEN conjunct1] by (rule id_inv_cong [rotated 2]) (simp_all add: T')
  moreover have "next_id T \<le> next_id T'"
    using ia n2 by (simp add: T')
  moreover have "set (ids T') \<subseteq> set (ids T) \<union> {i. next_id T \<le> i}"
  proof -
    have "set (ids T') \<subseteq> set (ids W)" using sw by (simp add: T')
    also have "\<dots> \<subseteq> set (ids T2) \<union> {i. next_id T2 \<le> i}" using ia by simp
    finally show ?thesis by (simp only: ids2 n2)
  qed
  ultimately show ?thesis by (intro conjI)
qed

lemma quiet_reachable_inv: "quiet_reachable E T \<Longrightarrow> id_inv T"
proof (induction rule: quiet_reachable.induct)
  case (init m max_iou maxage ninit)
  show ?case by (rule id_inv_Tracker)
next
  case (predict T)
  then show ?case by (simp add: id_inv_predict)
next
  case (update T detections T')
  from quiet_update_step [OF update.IH update.hyps(2)] show ?case by (rule conjunct1)
qed

text \<open>
  Where the decrement of lines 87-89 does not fire, the ids behave: in every tracker state
  reached from a new tracker by \<open>predict\<close> and by updates in which the id counter is not
  decremented, the ids of the active tracks and of the ledger entries taken together are
  pairwise distinct, each is at least 1 and below the id counter; such an update never
  lowers the counter, and every id present after it was present before it (kept, or reused
  from the ledger) or is at least the counter's value before it (minted); \<open>predict\<close>
  leaves the counter and adds no id.
\<close>

lemma ids_without_decrement:
  "(quiet_update E T detections = Some T' \<longrightarrow> update E T detections = Some T')
   \<and> (quiet_reachable E T \<longrightarrow>
        distinct (ids T) \<and> list_all (\<lambda>i. 1 \<le> i \<and> i < next_id T) (ids T) \<and> 1 \<le> next_id T)
   \<and> (quiet_reachable E T \<and> quiet_update E T detections = Some T' \<longrightarrow>
        next_id T \<le> next_id T'
        \<and> list_all (\<lambda>i. i \<in> set (ids T) \<or> next_id T \<le> i) (ids T'))
   \<and> (quiet_reachable E T \<longrightarrow>
        next_id (predict E T) = next_id T \<and> set (ids (predict E T)) \<subseteq> set (ids T))"
proof (intro conjI impI)
  assume "quiet_update E T detections = Some T'"
  then show "update E T detections = Some T'" by (rule quiet_update_update)
next
  assume "quiet_reachable E T"
  then have "id_inv T" by (rule quiet_reachable_inv)
  then show "distinct (ids T)" "list_all (\<lambda>i. 1 \<le> i \<and> i < next_id T) (ids T)" "1 \<le> next_id T"
    by (simp_all add: id_inv_def)
next
  assume a: "quiet_reachable E T \<and> quiet_update E T detections = Some T'"
  then have "id_inv T" by (intro quiet_reachable_inv) (rule conjunct1)
  from quiet_update_step [OF this a [THEN conjunct2]]
  have s: "next_id T \<le> next_id T'" "set (ids T') \<subseteq> set (ids T) \<union> {i. next_id T \<le> i}"
    by simp_all
  show "next_id T \<le> next_id T'" by (rule s(1))
  show "list_all (\<lambda>i. i \<in> set (ids T) \<or> next_id T \<le> i) (ids T')"
    unfolding list_all_iff using s(2) by blast
next
  show "next_id (predict E T) = next_id T" by simp
  show "set (ids (predict E T)) \<subseteq> set (ids T)" by (rule ids_predict_subset)
qed

lemma frame1_quiet:
  "quiet_update example_env (Tracker () 0.9 40 11) frame1_detections = Some frame1_result"
  by (simp add: quiet_update_def update_tracks_def match_def sweep_def refit_def refit_args_def
        example_simps frame1_result_def initiate_track_def new_id_track_def)

lemma frame1_predict: "predict example_env frame1_result = frame2_tracker"
  by (simp add: predict_def predict_covered_0 Track_predict_def frame1_result_def
        frame2_tracker_def Tracker_def Track_def example_env_def)

lemma frame2_reachable: "quiet_reachable example_env frame2_tracker"
proof -
  have "quiet_reachable example_env (Tracker () 0.9 40 11 :: (tlwh, nat, unit) tracker)"
    by (rule quiet_reachable.init)
  then have "quiet_reachable example_env frame1_result"
    using frame1_quiet by (rule quiet_reachable.update)
  then have "quiet_reachable example_env (predict example_env frame1_result)"
    by (rule quiet_reachable.predict)
  then show ?thesis by (simp only: frame1_predict)
qed

lemma ids_without_decrement_example:
  "quiet_reachable example_env (Tracker () 0.9 40 11)
   \<and> quiet_update example_env (Tracker () 0.9 40 11) frame1_detections = Some frame1_result
   \<and> update example_env (Tracker () 0.9 40 11) frame1_detections = Some frame1_result
   \<and> ids frame1_result = [1, 2]
   \<and> next_id (Tracker () 0.9 40 11 :: (tlwh, nat, unit) tracker) = 1
   \<and> next_id frame1_result = 3
   \<and> quiet_reachable example_env frame2_tracker
   \<and> distinct (ids frame2_tracker)
   \<and> list_all (\<lambda>i. 1 \<le> i \<and> i < next_id frame2_tracker) (ids frame2_tracker)"
proof -
  have r0: "quiet_reachable example_env (Tracker () 0.9 40 11 :: (tlwh, nat, unit) tracker)"
    by (rule quiet_reachable.init)
  note c = ids_without_decrement [of example_env "Tracker () 0.9 40 11" frame1_detections frame1_result]
  note c2 = ids_without_decrement [of example_env frame2_tracker "[]" frame2_tracker]
  have u: "update example_env (Tracker () 0.9 40 11) frame1_detections = Some frame1_result"
    using c [THEN conjunct1, THEN mp, OF frame1_quiet] .
  have i: "ids frame1_result = [1, 2]"
    by (simp add: ids_def frame1_result_def Tracker_def)
  have n: "next_id (Tracker () 0.9 40 11 :: (tlwh, nat, unit) tracker) = 1"
    "next_id frame1_result = 3"
    by (simp_all add: Tracker_def frame1_result_def)
  note inv = c2 [THEN conjunct2, THEN conjunct1, THEN mp, OF frame2_reachable]
  show ?thesis
    using r0 frame1_quiet u i n frame2_reachable inv [THEN conjunct1]
      inv [THEN conjunct2, THEN conjunct1]
    by (intro conjI)
qed

text \<open>
  Claim C3: in every reachable tracker state the ids are positive and unique among the
  active tracks and the ledger entries taken together. The code breaks it. Frame 1 creates
  the tracks 1 and 2 (counter 3). In frame 2 track 1 is missed while tentative, with
  \<open>time_since_update = 1\<close>, so lines 87-89 put the counter back to 2; track 2 is matched;
  the new detection is then given the id 2 (lines 163-166), which track 2 still holds: the
  state after the second \<open>update\<close> has two active tracks with the id 2.
\<close>

theorem C3_duplicate_id:
  "map_option (predict example_env)
       (update example_env (Tracker () 0.9 40 11) frame1_detections) = Some frame2_tracker
   \<and> update example_env frame2_tracker frame2_detections = Some frame2_result
   \<and> map track_id (tracks frame2_result) = [2, 2]
   \<and> Covered_lists frame2_result = []
   \<and> \<not> distinct (ids frame2_result)"
  using frame1_update frame2_update
  by (simp add: frame2_result_def Tracker_def ids_def)

section \<open>update returns\<close>

lemma cascade_in_range:
  assumes "assignment_in_range E" "list_all (\<lambda>k. k < length ts) tis"
    "matching_cascade E g a ts ds tis = (m, ut, ud)"
  shows "list_all (\<lambda>(t, d). t < length ts \<and> d < length ds) m"
    "list_all (\<lambda>k. k < length ts) ut" "list_all (\<lambda>d. d < length ds) ud"
proof -
  note h = assms(1) [unfolded assignment_in_range_def, THEN conjunct1, rule_format, OF assms(2)]
  have "case matching_cascade E g a ts ds tis of
           (m, ut, ud) \<Rightarrow> list_all (\<lambda>(t, d). t < length ts \<and> d < length ds) m
                           \<and> list_all (\<lambda>k. k < length ts) ut
                           \<and> list_all (\<lambda>d. d < length ds) ud"
    by (rule h)
  then show "list_all (\<lambda>(t, d). t < length ts \<and> d < length ds) m"
    "list_all (\<lambda>k. k < length ts) ut" "list_all (\<lambda>d. d < length ds) ud"
    by (simp_all add: assms(3))
qed

lemma min_cost_in_range:
  assumes "assignment_in_range E" "list_all (\<lambda>k. k < length ts) tis"
    "list_all (\<lambda>d. d < length ds) dis"
    "min_cost_matching E thr ts ds tis dis = (m, ut, ud)"
  shows "list_all (\<lambda>(t, d). t < length ts \<and> d < length ds) m"
    "list_all (\<lambda>k. k < length ts) ut" "list_all (\<lambda>d. d < length ds) ud"
proof -
  note h = assms(1) [unfolded assignment_in_range_def, THEN conjunct2, rule_format,
      OF conjI, OF assms(2,3)]
  have "case min_cost_matching E thr ts ds tis dis of
           (m, ut, ud) \<Rightarrow> list_all (\<lambda>(t, d). t < length ts \<and> d < length ds) m
                           \<and> list_all (\<lambda>k. k < length ts) ut
                           \<and> list_all (\<lambda>d. d < length ds) ud"
    by (rule h)
  then show "list_all (\<lambda>(t, d). t < length ts \<and> d < length ds) m"
    "list_all (\<lambda>k. k < length ts) ut" "list_all (\<lambda>d. d < length ds) ud"
    by (simp_all add: assms(4))
qed

lemma match_returns:
  assumes "assignment_in_range E"
  shows "\<exists>ms uts uds. match E T ds = Some (ms, uts, uds)
           \<and> list_all (\<lambda>(t, d). t < length (tracks T) \<and> d < length ds) ms
           \<and> list_all (\<lambda>k. k < length (tracks T)) uts \<and> distinct uts
           \<and> list_all (\<lambda>d. d < length ds) uds"
proof -
  let ?C = "[i \<leftarrow> [0 ..< length (tracks T)]. is_confirmed (tracks T ! i)]"
  let ?U = "[i \<leftarrow> [0 ..< length (tracks T)]. \<not> is_confirmed (tracks T ! i)]"
  obtain ma ua ud where c: "matching_cascade E (metric T) (max_age T) (tracks T) ds ?C = (ma, ua, ud)"
    by (cases "matching_cascade E (metric T) (max_age T) (tracks T) ds ?C") auto
  have Cr: "list_all (\<lambda>k. k < length (tracks T)) ?C" by (simp add: list_all_iff)
  note cr = cascade_in_range [OF assms Cr c]
  let ?cands = "?U @ [k \<leftarrow> ua. time_since_update (tracks T ! k) = 1]"
  obtain mb ub ud' where m: "min_cost_matching E (max_iou_distance T) (tracks T) ds ?cands ud
       = (mb, ub, ud')"
    by (cases "min_cost_matching E (max_iou_distance T) (tracks T) ds ?cands ud") auto
  have cands: "list_all (\<lambda>k. k < length (tracks T)) ?cands"
    using cr(2) by (auto simp: list_all_iff)
  note mr = min_cost_in_range [OF assms cands cr(3) m]
  let ?uts = "sort (remdups ([k \<leftarrow> ua. time_since_update (tracks T ! k) \<noteq> 1] @ ub))"
  have eq: "match E T ds = Some (ma @ mb, ?uts, ud')"
    using c cr(2) m by (simp add: match_def Let_def)
  have u: "list_all (\<lambda>k. k < length (tracks T)) ?uts"
    using cr(2) mr(2) by (auto simp: list_all_iff)
  have ms: "list_all (\<lambda>(t, d). t < length (tracks T) \<and> d < length ds) (ma @ mb)"
    using cr(1) mr(1) by simp
  have d: "distinct ?uts" by simp
  show ?thesis
    using eq ms u d mr(3) by (intro exI [of _ "ma @ mb"] exI [of _ ?uts] exI [of _ ud'] conjI)
qed

lemma apply_matches_returns:
  "list_all (\<lambda>(t, d). t < length (tracks T) \<and> d < length ds) ms \<Longrightarrow>
   \<exists>T1. apply_matches E ds ms T = Some T1"
proof (induction ms arbitrary: T)
  case Nil
  then show ?case by simp
next
  case (Cons m ms)
  obtain ti di where m: "m = (ti, di)" by (cases m)
  let ?T = "T\<lparr>tracks := (tracks T)[ti := Track_update E (tracks T ! ti) (ds ! di)]\<rparr>"
  from Cons.prems m have r: "ti < length (tracks T)" "di < length ds"
    and "list_all (\<lambda>(t, d). t < length (tracks ?T) \<and> d < length ds) ms"
    by simp_all
  from Cons.IH [OF this(3)] r m show ?case by simp
qed

lemma update_returns:
  assumes "assignment_in_range E"
  shows "\<exists>T'. update E T ds = Some T'"
proof -
  obtain ms uts uds where m: "match E T ds = Some (ms, uts, uds)"
    and r: "list_all (\<lambda>(t, d). t < length (tracks T) \<and> d < length ds) ms"
      "list_all (\<lambda>k. k < length (tracks T)) uts" "distinct uts"
      "list_all (\<lambda>d. d < length ds) uds"
    by (insert match_returns [OF assms, of T ds], elim exE conjE, rule that)
  obtain T1 where T1: "apply_matches E ds ms T = Some T1"
    using apply_matches_returns [OF r(1)] by blast
  have len: "length (tracks T1) = length (tracks T)"
    using apply_matches_frame [OF T1] by auto
  obtain T2 where T2: "apply_misses E (map (to_tlwh E) (tracks T)) uts T1 = Some T2"
    using apply_misses_distinct [OF r(3), of T1 E "map (to_tlwh E) (tracks T)"] r(2) len
    by simp
  obtain W where W: "initiate_all E ds uds T2 = Some W"
    using initiate_all_Some [OF r(4)] by blast
  have "update_tracks E T ds = Some W"
    by (simp add: update_tracks_def m T1 T2 W)
  then show ?thesis by (simp add: update_def)
qed

lemma match_equal_in_range:
  "list_all (\<lambda>d. d < length ds) dis \<Longrightarrow> list_all (\<lambda>k. k < length ts) tis \<Longrightarrow>
   (case match_equal ts ds tis dis of
      (m, ut, ud) \<Rightarrow> list_all (\<lambda>(t, d). t < length ts \<and> d < length ds) m
                      \<and> list_all (\<lambda>k. k < length ts) ut
                      \<and> list_all (\<lambda>d. d < length ds) ud)"
proof (induction tis arbitrary: dis)
  case Nil
  then show ?case by simp
next
  case (Cons k ks)
  from Cons.prems(2) have ks: "list_all (\<lambda>k. k < length ts) ks" and k: "k < length ts"
    by simp_all
  show ?case
  proof (cases "[d \<leftarrow> dis. tlwh (ds ! d) = mean (ts ! k)]")
    case Nil
    with Cons.IH [OF Cons.prems(1) ks] k show ?thesis
      by (simp split: prod.splits)
  next
    case (Cons d rest)
    then have "d \<in> set [d \<leftarrow> dis. tlwh (ds ! d) = mean (ts ! k)]" by simp
    then have "d \<in> set dis" by simp
    with Cons.prems(1) have dl: "d < length ds" by (simp add: list_all_iff)
    have "list_all (\<lambda>d. d < length ds) (removeAll d dis)"
      using Cons.prems(1) by (simp add: list_all_iff)
    from Cons.IH [OF this ks] Cons dl k show ?thesis
      by (simp split: prod.splits)
  qed
qed

lemma example_env_in_range: "assignment_in_range example_env"
  unfolding assignment_in_range_def
proof (intro conjI allI impI)
  fix g :: unit and a :: int and ts :: "(tlwh, nat) track list" and ds :: "nat detection list"
    and tis :: "nat list"
  assume t: "list_all (\<lambda>k. k < length ts) tis"
  have "list_all (\<lambda>d. d < length ds) [0 ..< length ds]" by (simp add: list_all_iff)
  from match_equal_in_range [OF this t]
  show "case matching_cascade example_env g a ts ds tis of
           (m, ut, ud) \<Rightarrow> list_all (\<lambda>(t, d). t < length ts \<and> d < length ds) m
                           \<and> list_all (\<lambda>k. k < length ts) ut
                           \<and> list_all (\<lambda>d. d < length ds) ud"
    by (simp add: example_env_def)
next
  fix thr :: real and ts :: "(tlwh, nat) track list" and ds :: "nat detection list"
    and tis dis :: "nat list"
  assume "list_all (\<lambda>k. k < length ts) tis \<and> list_all (\<lambda>d. d < length ds) dis"
  then have t: "list_all (\<lambda>k. k < length ts) tis" and d: "list_all (\<lambda>d. d < length ds) dis"
    by simp_all
  from match_equal_in_range [OF d t]
  show "case min_cost_matching example_env thr ts ds tis dis of
           (m, ut, ud) \<Rightarrow> list_all (\<lambda>(t, d). t < length ts \<and> d < length ds) m
                           \<and> list_all (\<lambda>k. k < length ts) ut
                           \<and> list_all (\<lambda>d. d < length ds) ud"
    by (simp add: example_env_def)
qed

section \<open>update on an empty detection list or an empty track list\<close>

lemma length_filter_nth:
  "length [k \<leftarrow> [0 ..< length ts]. P (ts ! k)] = length [t \<leftarrow> ts. P t]"
proof -
  have "[t \<leftarrow> ts. P t] = [t \<leftarrow> map (\<lambda>k. ts ! k) [0 ..< length ts]. P t]"
    by (simp only: map_nth)
  also have "\<dots> = map (\<lambda>k. ts ! k) [k \<leftarrow> [0 ..< length ts]. P (ts ! k)]"
    by (simp add: filter_map comp_def)
  finally show ?thesis by simp
qed

lemma update_no_detections:
  assumes "empty_assignment_ok E"
  shows "\<exists>T'. update E T [] = Some T'
      \<and> tracks T' = map clear_features
           [t \<leftarrow> map (\<lambda>t. mark_missed (is_Covered E (map (to_tlwh E) (tracks T)) 0.75 t)) (tracks T).
              \<not> is_deleted t \<and> \<not> Covered t]
      \<and> Covered_lists T' = Covered_lists T @ map (cover_entry E)
           [t \<leftarrow> map (\<lambda>t. mark_missed (is_Covered E (map (to_tlwh E) (tracks T)) 0.75 t)) (tracks T).
              Covered t]
      \<and> next_id T' = next_id T - int (length
           [t \<leftarrow> map (\<lambda>t. mark_missed (is_Covered E (map (to_tlwh E) (tracks T)) 0.75 t)) (tracks T).
              state t = Deleted \<and> time_since_update t = 1])"
proof -
  let ?tc = "map (to_tlwh E) (tracks T)"
  let ?W = "T\<lparr>tracks := map (miss E ?tc) (tracks T),
             next_id := next_id T -
               int (length [k \<leftarrow> [0 ..< length (tracks T)].
                      first_miss_deleted (miss E ?tc (tracks T ! k))])\<rparr>"
  have m: "(\<lambda>t. mark_missed (is_Covered E ?tc 0.75 t)) = miss E ?tc"
    by (simp add: miss_def [abs_def])
  have W: "update_tracks E T [] = Some ?W"
    by (rule update_tracks_no_detections [OF assms])
  have cnt: "length [k \<leftarrow> [0 ..< length (tracks T)]. first_miss_deleted (miss E ?tc (tracks T ! k))]
      = length [t \<leftarrow> map (miss E ?tc) (tracks T). state t = Deleted \<and> time_since_update t = 1]"
    using length_filter_nth [of "\<lambda>t. first_miss_deleted (miss E ?tc t)" "tracks T"]
    by (simp add: filter_map comp_def first_miss_deleted_def)
  let ?T' = "refit E (sweep E ?W)"
  have u: "update E T [] = Some ?T'" by (simp add: update_def W)
  have t: "tracks ?T' = map clear_features
           [t \<leftarrow> map (miss E ?tc) (tracks T). \<not> is_deleted t \<and> \<not> Covered t]"
    by (simp add: refit_eq tracks_sweep)
  have c: "Covered_lists ?T' = Covered_lists T @ map (cover_entry E)
           [t \<leftarrow> map (miss E ?tc) (tracks T). Covered t]"
    by (simp add: refit_eq Covered_lists_sweep)
  have n: "next_id ?T' = next_id T - int (length
           [t \<leftarrow> map (miss E ?tc) (tracks T). state t = Deleted \<and> time_since_update t = 1])"
    by (simp only: next_id_refit next_id_sweep cnt [symmetric]) simp
  show ?thesis
    unfolding m using u t c n by (intro exI [of _ ?T'] conjI)
qed


text \<open>
  Claim C8. With assignment routines that return no match and everything unmatched on an
  empty candidate set: on an empty detection list \<open>_match\<close> gives no match and every active
  track unmatched, the loops of \<open>update\<close> apply the cover test and the miss to every track
  and add none, and \<open>update\<close> returns a tracker whose active set is made of the missed
  tracks that are neither deleted nor covered, whose ledger gained the covered ones and
  whose id counter went down by the number of tracks Deleted with
  \<open>time_since_update = 1\<close>. With no active track, \<open>_match\<close> gives every detection unmatched
  (each once), \<open>update\<close> returns and the active set holds one new tentative track per
  detection.
\<close>

theorem C8_empty_candidates:
  "empty_assignment_ok E \<longrightarrow>
     match E T [] = Some ([], [0 ..< length (tracks T)], [])
     \<and> (\<exists>W. update_tracks E T [] = Some W
           \<and> tracks W = map (\<lambda>t. mark_missed (is_Covered E (map (to_tlwh E) (tracks T)) 0.75 t))
                          (tracks T))
     \<and> (\<exists>T'. update E T [] = Some T'
           \<and> tracks T' = map clear_features
                [t \<leftarrow> map (\<lambda>t. mark_missed (is_Covered E (map (to_tlwh E) (tracks T)) 0.75 t))
                       (tracks T). \<not> is_deleted t \<and> \<not> Covered t]
           \<and> Covered_lists T' = Covered_lists T @ map (cover_entry E)
                [t \<leftarrow> map (\<lambda>t. mark_missed (is_Covered E (map (to_tlwh E) (tracks T)) 0.75 t))
                       (tracks T). Covered t]
           \<and> next_id T' = next_id T - int (length
                [t \<leftarrow> map (\<lambda>t. mark_missed (is_Covered E (map (to_tlwh E) (tracks T)) 0.75 t))
                       (tracks T). state t = Deleted \<and> time_since_update t = 1]))
     \<and> (tracks T = [] \<longrightarrow>
          (\<exists>ud T'. match E T ds = Some ([], [], ud) \<and> distinct ud \<and> set ud = {..< length ds}
             \<and> update E T ds = Some T' \<and> length (tracks T') = length ds
             \<and> map mean (tracks T') = map (\<lambda>i. kf_initiate E (tlwh (ds ! i))) ud
             \<and> list_all (\<lambda>t. state t = Tentative \<and> \<not> Covered t) (tracks T')))"
proof (intro impI conjI)
  assume ok: "empty_assignment_ok E"
  show "match E T [] = Some ([], [0 ..< length (tracks T)], [])"
    by (rule match_no_detections [OF ok])
  have ut: "\<exists>W. update_tracks E T [] = Some W
           \<and> tracks W = map (miss E (map (to_tlwh E) (tracks T))) (tracks T)"
    by (simp add: update_tracks_no_detections [OF ok])
  then show "\<exists>W. update_tracks E T [] = Some W
           \<and> tracks W = map (\<lambda>t. mark_missed (is_Covered E (map (to_tlwh E) (tracks T)) 0.75 t))
                          (tracks T)"
    by (simp add: miss_def [abs_def])
  show "\<exists>T'. update E T [] = Some T'
           \<and> tracks T' = map clear_features
                [t \<leftarrow> map (\<lambda>t. mark_missed (is_Covered E (map (to_tlwh E) (tracks T)) 0.75 t))
                       (tracks T). \<not> is_deleted t \<and> \<not> Covered t]
           \<and> Covered_lists T' = Covered_lists T @ map (cover_entry E)
                [t \<leftarrow> map (\<lambda>t. mark_missed (is_Covered E (map (to_tlwh E) (tracks T)) 0.75 t))
                       (tracks T). Covered t]
           \<and> next_id T' = next_id T - int (length
                [t \<leftarrow> map (\<lambda>t. mark_missed (is_Covered E (map (to_tlwh E) (tracks T)) 0.75 t))
                       (tracks T). state t = Deleted \<and> time_since_update t = 1])"
    by (rule update_no_detections [OF ok])
  assume "tracks T = []"
  with ok show "\<exists>ud T'. match E T ds = Some ([], [], ud) \<and> distinct ud \<and> set ud = {..< length ds}
             \<and> update E T ds = Some T' \<and> length (tracks T') = length ds
             \<and> map mean (tracks T') = map (\<lambda>i. kf_initiate E (tlwh (ds ! i))) ud
             \<and> list_all (\<lambda>t. state t = Tentative \<and> \<not> Covered t) (tracks T')"
    by (rule update_no_tracks)
qed

theorem C8_empty_candidates_witness:
  "empty_assignment_ok example_env
   \<and> match example_env frame2_tracker [] = Some ([], [0 ..< length (tracks frame2_tracker)], [])
   \<and> length (tracks frame2_tracker) = 2 \<and> next_id frame2_tracker = 3
   \<and> (\<exists>T'. update example_env frame2_tracker [] = Some T'
         \<and> tracks T' = [] \<and> Covered_lists T' = [] \<and> next_id T' = 1)
   \<and> tracks (Tracker () 0.9 40 11 :: (tlwh, nat, unit) tracker) = []
   \<and> (\<exists>ud T'. match example_env (Tracker () 0.9 40 11) frame1_detections = Some ([], [], ud)
         \<and> distinct ud \<and> set ud = {..< length frame1_detections}
         \<and> update example_env (Tracker () 0.9 40 11) frame1_detections = Some T'
         \<and> length (tracks T') = length frame1_detections
         \<and> map mean (tracks T') = map (\<lambda>i. kf_initiate example_env (tlwh (frame1_detections ! i))) ud
         \<and> list_all (\<lambda>t. state t = Tentative \<and> \<not> Covered t) (tracks T'))"
proof -
  note a = C8_empty_candidates [THEN mp, OF example_env_empty_ok, of frame2_tracker]
  note b = C8_empty_candidates [THEN mp, OF example_env_empty_ok,
      of "Tracker () 0.9 40 11" frame1_detections]
  have e: "tracks (Tracker () 0.9 40 11 :: (tlwh, nat, unit) tracker) = []"
    by (simp add: Tracker_def)
  have f: "length (tracks frame2_tracker) = 2" "next_id frame2_tracker = 3"
    by (simp_all add: frame2_tracker_def)
  obtain T' where T': "update example_env frame2_tracker [] = Some T'"
    "tracks T' = map clear_features
       [t \<leftarrow> map (\<lambda>t. mark_missed (is_Covered example_env
            (map (to_tlwh example_env) (tracks frame2_tracker)) 0.75 t)) (tracks frame2_tracker).
          \<not> is_deleted t \<and> \<not> Covered t]"
    "Covered_lists T' = Covered_lists frame2_tracker @ map (cover_entry example_env)
       [t \<leftarrow> map (\<lambda>t. mark_missed (is_Covered example_env
            (map (to_tlwh example_env) (tracks frame2_tracker)) 0.75 t)) (tracks frame2_tracker).
          Covered t]"
    "next_id T' = next_id frame2_tracker - int (length
       [t \<leftarrow> map (\<lambda>t. mark_missed (is_Covered example_env
            (map (to_tlwh example_env) (tracks frame2_tracker)) 0.75 t)) (tracks frame2_tracker).
          state t = Deleted \<and> time_since_update t = 1])"
    by (insert a [THEN conjunct2, THEN conjunct2, THEN conjunct1], elim exE conjE, rule that)
  have "tracks T' = []" "Covered_lists T' = []" "next_id T' = 1"
    unfolding T'(2,3,4)
    by (simp_all add: frame2_tracker_def Tracker_def Track_def mark_missed_def is_Covered_def
        example_env_def is_deleted_def)
  with T'(1) have g: "\<exists>T'. update example_env frame2_tracker [] = Some T'
         \<and> tracks T' = [] \<and> Covered_lists T' = [] \<and> next_id T' = 1"
    by (intro exI [of _ T'] conjI)
  show ?thesis
    apply (intro conjI)
          apply (rule example_env_empty_ok)
         apply (rule a [THEN conjunct1])
        apply (rule f(1))
       apply (rule f(2))
      apply (rule g)
     apply (rule e)
    apply (rule b [THEN conjunct2, THEN conjunct2, THEN conjunct2, THEN mp, OF e])
    done
qed

end
